theory Spec2Isabelle
  imports Main
begin

section \<open>The prime sieve of programs/compute_primes.c\<close>

text \<open>
  The C function under study:
  \<^verbatim>\<open>
  void compute_primes(int limit) {
      bool *is_prime = malloc((limit + 1) * sizeof(bool));
      if (is_prime == NULL) {
          return;
      }
      for (int i = 2; i <= limit; i++) {
          is_prime[i] = true;
      }
      for (int p = 2; p * p <= limit; p++) {
          if (is_prime[p]) {
              for (int i = p * p; i <= limit; i += p) {
                  is_prime[i] = false;
              }
          }
      }
      free(is_prime);
      printf("End Program\n");
  }
  \<close>
  The embedding keeps what the C does beyond computing: signed arithmetic that leaves the
  range of \<open>int\<close> is a fault, every array access is checked against the block and
  recorded, a cell that was never written holds no value, and a loop that need not end
  returns an option.
\<close>

subsection \<open>Faults and machine arithmetic\<close>

text \<open>
  Undefined behaviour of the C program is a value of the model: a signed overflow, an
  access through a null pointer, an access outside the block, a read of a cell that was
  never written.
\<close>

datatype fault = SignedOverflow | NullDeref | OutOfBounds | UninitRead

text \<open>
  \<open>int\<close> is the 32-bit two's complement type of the targets the repository compiles for
  (x86-64, AArch64 and RV64 with gcc); \<open>size_t\<close> has 64 bits there and \<open>bool\<close> is one
  byte.
\<close>

definition INT_MAX :: int where
  "INT_MAX = 2147483647"

definition INT_MIN :: int where
  "INT_MIN = - 2147483648"

definition add_int :: "int \<Rightarrow> int \<Rightarrow> fault + int" where
  "add_int a b =
     (if INT_MIN \<le> a + b \<and> a + b \<le> INT_MAX then Inr (a + b) else Inl SignedOverflow)"

definition mul_int :: "int \<Rightarrow> int \<Rightarrow> fault + int" where
  "mul_int a b =
     (if INT_MIN \<le> a * b \<and> a * b \<le> INT_MAX then Inr (a * b) else Inl SignedOverflow)"

definition to_size_t :: "int \<Rightarrow> nat" where
  "to_size_t x = nat (x mod 2 ^ 64)"

definition mul_size_t :: "nat \<Rightarrow> nat \<Rightarrow> nat" where
  "mul_size_t a b = nat ((int a * int b) mod 2 ^ 64)"

definition sizeof_bool :: nat where
  "sizeof_bool = 1"

subsection \<open>The state the function works on\<close>

text \<open>
  \<open>is_prime\<close> is the block the local pointer refers to: \<open>None\<close> is the null pointer
  (before the allocation, after a failed one, and after \<open>free\<close>); a cell is \<open>None\<close>
  until it is first written, since \<open>malloc\<close> does not initialise. \<open>accesses\<close> records
  every read and write of the block in program order, and \<open>stdout\<close> what was printed.
\<close>

datatype access = Rd int | Wr int

fun index_of :: "access \<Rightarrow> int" where
  "index_of (Rd i) = i"
| "index_of (Wr i) = i"

record world =
  is_prime :: "bool option list option"
  accesses :: "access list"
  stdout :: string

text \<open>
  Whether \<open>malloc\<close> succeeds is the environment's choice: \<open>avail n\<close> tells whether a
  request for \<open>n\<close> bytes is granted. A granted block has one cell per \<open>bool\<close>.
\<close>

definition malloc :: "(nat \<Rightarrow> bool) \<Rightarrow> nat \<Rightarrow> bool option list option" where
  "malloc avail n = (if avail n then Some (replicate (n div sizeof_bool) None) else None)"

definition free :: "world \<Rightarrow> world" where
  "free w = w\<lparr>is_prime := None\<rparr>"

definition printf :: "string \<Rightarrow> world \<Rightarrow> world" where
  "printf s w = w\<lparr>stdout := stdout w @ s\<rparr>"

text \<open>\<open>is_prime[i] = v\<close>\<close>

definition store :: "world \<Rightarrow> int \<Rightarrow> bool \<Rightarrow> fault + world" where
  "store w i v =
     (case is_prime w of
        None \<Rightarrow> Inl NullDeref
      | Some cells \<Rightarrow>
          if 0 \<le> i \<and> i < int (length cells)
          then Inr (w\<lparr>is_prime := Some (cells[nat i := Some v]),
                      accesses := accesses w @ [Wr i]\<rparr>)
          else Inl OutOfBounds)"

text \<open>The value of \<open>is_prime[i]\<close>\<close>

definition load :: "world \<Rightarrow> int \<Rightarrow> fault + bool \<times> world" where
  "load w i =
     (case is_prime w of
        None \<Rightarrow> Inl NullDeref
      | Some cells \<Rightarrow>
          if 0 \<le> i \<and> i < int (length cells)
          then (case cells ! nat i of
                  None \<Rightarrow> Inl UninitRead
                | Some b \<Rightarrow> Inr (b, w\<lparr>accesses := accesses w @ [Rd i]\<rparr>))
          else Inl OutOfBounds)"

subsection \<open>The loops\<close>

text \<open>\<open>for (int i = ...; i <= limit; i++) is_prime[i] = true;\<close> entered with \<open>i\<close>\<close>

function init_loop :: "int \<Rightarrow> int \<Rightarrow> world \<Rightarrow> fault + world" where
  "init_loop i limit w =
     (if i \<le> limit then
        (case store w i True of
           Inl e \<Rightarrow> Inl e
         | Inr w' \<Rightarrow>
             (case add_int i 1 of
                Inl e \<Rightarrow> Inl e
              | Inr i' \<Rightarrow> init_loop i' limit w'))
      else Inr w)"
  by pat_completeness auto
termination
  by (relation "measure (\<lambda>(i, limit, w). nat (limit + 1 - i))")
     (auto simp: add_int_def split: if_splits)

text \<open>
  \<open>for (int i = ...; i <= limit; i += p) is_prime[i] = false;\<close> entered with \<open>i\<close>.
  With \<open>p = 0\<close> this loop never ends, so the result is an option and \<open>None\<close> stands for
  a run that does not return.
\<close>

partial_function (option) inner_loop ::
  "int \<Rightarrow> int \<Rightarrow> int \<Rightarrow> world \<Rightarrow> (fault + world) option" where
  "inner_loop p i limit w =
     (if i \<le> limit then
        (case store w i False of
           Inl e \<Rightarrow> Some (Inl e)
         | Inr w' \<Rightarrow>
             (case add_int i p of
                Inl e \<Rightarrow> Some (Inl e)
              | Inr i' \<Rightarrow> inner_loop p i' limit w'))
      else Some (Inr w))"

declare inner_loop.simps [code]

text \<open>
  The body of the outer loop:
  \<open>if (is_prime[p]) { for (int i = p * p; i <= limit; i += p) is_prime[i] = false; }\<close>
\<close>

definition outer_body :: "int \<Rightarrow> int \<Rightarrow> world \<Rightarrow> (fault + world) option" where
  "outer_body p limit w =
     (case load w p of
        Inl e \<Rightarrow> Some (Inl e)
      | Inr (b, w') \<Rightarrow>
          if b then
            (case mul_int p p of
               Inl e \<Rightarrow> Some (Inl e)
             | Inr i \<Rightarrow> inner_loop p i limit w')
          else Some (Inr w'))"

text \<open>\<open>for (int p = ...; p * p <= limit; p++) { body }\<close> entered with \<open>p\<close>\<close>

function outer_loop :: "int \<Rightarrow> int \<Rightarrow> world \<Rightarrow> (fault + world) option" where
  "outer_loop p limit w =
     (case mul_int p p of
        Inl e \<Rightarrow> Some (Inl e)
      | Inr pp \<Rightarrow>
          if pp \<le> limit then
            (case outer_body p limit w of
               None \<Rightarrow> None
             | Some (Inl e) \<Rightarrow> Some (Inl e)
             | Some (Inr w') \<Rightarrow>
                 (case add_int p 1 of
                    Inl e \<Rightarrow> Some (Inl e)
                  | Inr p' \<Rightarrow> outer_loop p' limit w'))
          else Some (Inr w))"
  by pat_completeness auto
termination
  by (relation "measure (\<lambda>(p, limit, w). nat (INT_MAX + 1 - p))")
     (auto simp: add_int_def split: if_splits)

subsection \<open>The function\<close>

text \<open>Line 6: \<open>bool *is_prime = malloc((limit + 1) * sizeof(bool));\<close>\<close>

definition allocate :: "(nat \<Rightarrow> bool) \<Rightarrow> int \<Rightarrow> world \<Rightarrow> fault + world" where
  "allocate avail limit w =
     (case add_int limit 1 of
        Inl e \<Rightarrow> Inl e
      | Inr n \<Rightarrow> Inr (w\<lparr>is_prime := malloc avail (mul_size_t (to_size_t n) sizeof_bool)\<rparr>))"

definition compute_primes :: "(nat \<Rightarrow> bool) \<Rightarrow> int \<Rightarrow> world \<Rightarrow> (fault + world) option" where
  "compute_primes avail limit w =
     (case allocate avail limit w of
        Inl e \<Rightarrow> Some (Inl e)
      | Inr w0 \<Rightarrow>
          if is_prime w0 = None then Some (Inr w0)
          else
            (case init_loop 2 limit w0 of
               Inl e \<Rightarrow> Some (Inl e)
             | Inr w1 \<Rightarrow>
                 (case outer_loop 2 limit w1 of
                    None \<Rightarrow> None
                  | Some (Inl e) \<Rightarrow> Some (Inl e)
                  | Some (Inr w2) \<Rightarrow> Some (Inr (printf ''End Program\<newline>'' (free w2))))))"

text \<open>
  The function returns nothing and releases the block before it returns, so the marking
  it computed is to be found in the state it has reached at line 22, when the elimination
  loop has ended and before \<open>free\<close>. \<open>sieve\<close> is the function up to there: lines 6 to 21.
\<close>

definition sieve :: "(nat \<Rightarrow> bool) \<Rightarrow> int \<Rightarrow> world \<Rightarrow> (fault + world) option" where
  "sieve avail limit w =
     (case allocate avail limit w of
        Inl e \<Rightarrow> Some (Inl e)
      | Inr w0 \<Rightarrow>
          if is_prime w0 = None then Some (Inr w0)
          else
            (case init_loop 2 limit w0 of
               Inl e \<Rightarrow> Some (Inl e)
             | Inr w1 \<Rightarrow> outer_loop 2 limit w1))"

subsection \<open>Reading a state\<close>

text \<open>The number of bytes line 6 asks \<open>malloc\<close> for.\<close>

definition requested :: "int \<Rightarrow> nat" where
  "requested limit = mul_size_t (to_size_t (limit + 1)) sizeof_bool"

text \<open>The value held by \<open>is_prime[i]\<close>, if the block has such a cell and it was written.\<close>

definition cell :: "world \<Rightarrow> int \<Rightarrow> bool option" where
  "cell w i =
     (case is_prime w of
        None \<Rightarrow> None
      | Some cells \<Rightarrow> if 0 \<le> i \<and> i < int (length cells) then cells ! nat i else None)"

text \<open>The indices still marked as candidates: the result set of the sieve.\<close>

definition candidates :: "world \<Rightarrow> int set" where
  "candidates w = {i \<in> {0..<(case is_prime w of None \<Rightarrow> 0 | Some cells \<Rightarrow> int (length cells))}.
                     cell w i = Some True}"

text \<open>A state before any call: no block, nothing accessed, nothing printed.\<close>

definition initial_world :: world where
  "initial_world = \<lparr>is_prime = None, accesses = [], stdout = []\<rparr>"

subsection \<open>What the loops are measured against\<close>

text \<open>Primality by trial division: no number from 2 up to \<open>n - 1\<close> divides \<open>n\<close>.\<close>

definition prime_number :: "int \<Rightarrow> bool" where
  "prime_number n = (2 \<le> n \<and> (\<forall>d\<in>{2..<n}. \<not> d dvd n))"

text \<open>
  The block after the loop of line 11 entered at \<open>i\<close>, and after the loop of line 17
  entered at \<open>i\<close> with step \<open>p\<close>; the indices the latter visits, in order.
\<close>

definition init_cells :: "int \<Rightarrow> int \<Rightarrow> bool option list \<Rightarrow> bool option list" where
  "init_cells i limit cells =
     map (\<lambda>j. if i \<le> int j \<and> int j \<le> limit then Some True else cells ! j) [0..<length cells]"

definition strike :: "int \<Rightarrow> int \<Rightarrow> int \<Rightarrow> bool option list \<Rightarrow> bool option list" where
  "strike p i limit cells =
     map (\<lambda>j. if i \<le> int j \<and> int j \<le> limit \<and> p dvd (int j - i) then Some False else cells ! j)
       [0..<length cells]"

definition multiples_from :: "int \<Rightarrow> int \<Rightarrow> int \<Rightarrow> int list" where
  "multiples_from p i limit = map (\<lambda>k. i + int k * p) [0..<nat ((limit - i) div p + 1)]"

text \<open>
  The invariant of the outer loop: when it tests \<open>p\<close>, index \<open>j\<close> is still a candidate
  exactly if no \<open>d\<close> below \<open>p\<close> with \<open>d * d \<le> j\<close> divides \<open>j\<close>.
\<close>

definition unstruck :: "int \<Rightarrow> int \<Rightarrow> bool" where
  "unstruck p j = (\<forall>d\<in>{2..<p}. d * d \<le> j \<longrightarrow> \<not> d dvd j)"

definition sieved :: "int \<Rightarrow> int \<Rightarrow> bool option list \<Rightarrow> bool option list" where
  "sieved p limit cells =
     map (\<lambda>j. if 2 \<le> int j \<and> int j \<le> limit then Some (unstruck p (int j)) else cells ! j)
       [0..<length cells]"

text \<open>The block when the outer loop has ended: an index from 2 to \<open>limit\<close> holds its primality.\<close>

definition primes_marked :: "int \<Rightarrow> bool option list \<Rightarrow> bool option list" where
  "primes_marked limit cells =
     map (\<lambda>j. if 2 \<le> int j \<and> int j \<le> limit then Some (prime_number (int j)) else cells ! j)
       [0..<length cells]"

text \<open>
  The values of \<open>p\<close> the outer loop entered at \<open>p\<close> tests and finds in range, and the
  accesses it makes: for each such \<open>q\<close> the read of \<open>is_prime[q]\<close>, followed, if \<open>q\<close>
  is prime, by the writes of its inner loop.
\<close>

definition examined :: "int \<Rightarrow> int \<Rightarrow> int list" where
  "examined p limit = filter (\<lambda>q. q * q \<le> limit) [p..limit]"

definition elim_log :: "int \<Rightarrow> int \<Rightarrow> access list" where
  "elim_log p limit =
     concat (map (\<lambda>q. Rd q # (if prime_number q then map Wr (multiples_from q (q * q) limit) else []))
       (examined p limit))"

section \<open>The loops in closed form\<close>

lemma init_cells_done: "limit < i \<Longrightarrow> init_cells i limit cells = cells"
  by (auto simp: init_cells_def intro!: nth_equalityI)

lemma init_cells_step:
  "0 \<le> i \<Longrightarrow> i \<le> limit \<Longrightarrow> limit < int (length cells) \<Longrightarrow>
   init_cells (i + 1) limit (cells[nat i := Some True]) = init_cells i limit cells"
  by (auto simp: init_cells_def nth_list_update intro!: nth_equalityI)

lemma init_loop_eq:
  assumes "is_prime w = Some cells" "0 \<le> i" "limit < int (length cells)" "limit < INT_MAX"
  shows "init_loop i limit w =
           Inr (w\<lparr>is_prime := Some (init_cells i limit cells),
                  accesses := accesses w @ map Wr [i..limit]\<rparr>)"
  using assms
proof (induction "nat (limit + 1 - i)" arbitrary: i w cells rule: less_induct)
  case less
  show ?case
  proof (cases "i \<le> limit")
    case False
    then show ?thesis
      using less.prems by (simp add: init_cells_done)
  next
    case True
    let ?w' = "w\<lparr>is_prime := Some (cells[nat i := Some True]), accesses := accesses w @ [Wr i]\<rparr>"
    have st: "store w i True = Inr ?w'"
      using True less.prems by (simp add: store_def)
    have ad: "add_int i 1 = Inr (i + 1)"
      using True less.prems by (simp add: add_int_def INT_MAX_def INT_MIN_def)
    have "init_loop (i + 1) limit ?w' =
            Inr (?w'\<lparr>is_prime := Some (init_cells (i + 1) limit (cells[nat i := Some True])),
                     accesses := accesses ?w' @ map Wr [i + 1..limit]\<rparr>)"
      by (rule less.hyps) (use True less.prems in simp_all)
    moreover have "[i..limit] = i # [i + 1..limit]"
      using True by (simp add: upto_rec1)
    ultimately show ?thesis
      using True st ad less.prems by (simp add: init_cells_step)
  qed
qed

lemma strike_done: "limit < i \<Longrightarrow> strike p i limit cells = cells"
  by (auto simp: strike_def intro!: nth_equalityI)

lemma strike_step:
  assumes "0 \<le> i" "i \<le> limit" "0 < p" "limit < int (length cells)"
  shows "strike p (i + p) limit (cells[nat i := Some False]) = strike p i limit cells"
proof (rule nth_equalityI)
  show "length (strike p (i + p) limit (cells[nat i := Some False])) = length (strike p i limit cells)"
    by (simp add: strike_def)
next
  fix j assume "j < length (strike p (i + p) limit (cells[nat i := Some False]))"
  then have j: "j < length cells" by (simp add: strike_def)
  have dv: "p dvd (int j - (i + p)) \<longleftrightarrow> p dvd (int j - i)"
  proof -
    have "int j - i = (int j - (i + p)) + p" by simp
    then show ?thesis by (metis dvd_add_triv_right_iff)
  qed
  have nodv: "\<not> p dvd (int j - i)" if "i < int j" "int j < i + p"
  proof
    assume "p dvd (int j - i)"
    then have "p \<le> int j - i" using that by (intro zdvd_imp_le) auto
    then show False using that by simp
  qed
  show "strike p (i + p) limit (cells[nat i := Some False]) ! j = strike p i limit cells ! j"
  proof (cases "int j = i")
    case True
    then have "nat i = j" by simp
    then show ?thesis using j assms True by (simp add: strike_def)
  next
    case False
    then have "nat i \<noteq> j" using assms by auto
    then show ?thesis
      using j assms False nodv dv by (auto simp: strike_def)
  qed
qed

lemma multiples_from_done: "0 < p \<Longrightarrow> limit < i \<Longrightarrow> multiples_from p i limit = []"
proof -
  assume "0 < p" "limit < i"
  then have "(limit - i) div p < 0"
    by (simp add: div_neg_pos_less0)
  then show ?thesis by (simp add: multiples_from_def)
qed

lemma multiples_from_step:
  assumes "0 < p" "i \<le> limit"
  shows "multiples_from p i limit = i # multiples_from p (i + p) limit"
proof -
  define n where "n = nat ((limit - (i + p)) div p + 1)"
  have "limit - i = (limit - (i + p)) + p" by simp
  then have d: "(limit - i) div p = (limit - (i + p)) div p + 1"
    using assms by (metis div_add_self2 less_numeral_extra(3))
  have "- p \<le> limit - (i + p)" using assms by simp
  then have "- 1 \<le> (limit - (i + p)) div p"
  proof -
    have "(- p) div p \<le> (limit - (i + p)) div p"
      using \<open>- p \<le> limit - (i + p)\<close> assms by (intro zdiv_mono1) auto
    moreover have "(- p) div p = - 1" using assms by (simp add: zdiv_zminus1_eq_if)
    ultimately show ?thesis by simp
  qed
  then have "nat ((limit - i) div p + 1) = Suc n"
    using d by (simp add: n_def)
  then have "multiples_from p i limit = map (\<lambda>k. i + int k * p) [0..<Suc n]"
    by (simp add: multiples_from_def)
  also have "[0..<Suc n] = 0 # map Suc [0..<n]"
    by (simp add: upt_conv_Cons map_Suc_upt del: upt_Suc)
  finally show ?thesis
    by (simp add: multiples_from_def n_def o_def algebra_simps)
qed

lemma inner_loop_eq:
  assumes "is_prime w = Some cells" "0 \<le> i" "0 < p" "limit < int (length cells)"
    "limit + p \<le> INT_MAX"
  shows "inner_loop p i limit w =
           Some (Inr (w\<lparr>is_prime := Some (strike p i limit cells),
                        accesses := accesses w @ map Wr (multiples_from p i limit)\<rparr>))"
  using assms
proof (induction "nat (limit + 1 - i)" arbitrary: i w cells rule: less_induct)
  case less
  show ?case
  proof (cases "i \<le> limit")
    case False
    then show ?thesis
      using less.prems
      by (subst inner_loop.simps) (simp add: strike_done multiples_from_done)
  next
    case True
    let ?w' = "w\<lparr>is_prime := Some (cells[nat i := Some False]), accesses := accesses w @ [Wr i]\<rparr>"
    have st: "store w i False = Inr ?w'"
      using True less.prems by (simp add: store_def)
    have ad: "add_int i p = Inr (i + p)"
      using True less.prems by (simp add: add_int_def INT_MIN_def)
    have "inner_loop p (i + p) limit ?w' =
            Some (Inr (?w'\<lparr>is_prime := Some (strike p (i + p) limit (cells[nat i := Some False])),
                     accesses := accesses ?w' @ map Wr (multiples_from p (i + p) limit)\<rparr>))"
      by (rule less.hyps) (use True less.prems in simp_all)
    then show ?thesis
      using True st ad less.prems
      by (subst inner_loop.simps) (simp add: strike_step multiples_from_step)
  qed
qed

lemma square_less_imp_less:
  fixes a b :: int
  assumes "a * a < b * b" "0 \<le> b"
  shows "a < b"
proof (rule ccontr)
  assume "\<not> a < b"
  then have "b \<le> a" by simp
  then have "b * b \<le> a * a" using assms by (intro mult_mono) auto
  then show False using assms by simp
qed

lemma self_le_square: "(p::int) \<le> p * p"
proof (cases "1 \<le> p")
  case True
  then have "p * 1 \<le> p * p" by (intro mult_left_mono) auto
  then show ?thesis by simp
next
  case False
  then have "p \<le> 0" by simp
  moreover have "0 \<le> p * p" by simp
  ultimately show ?thesis by linarith
qed

lemma unstruck_2: "unstruck 2 j"
  by (simp add: unstruck_def)

lemma unstruck_step:
  assumes "2 \<le> p"
  shows "unstruck (p + 1) j \<longleftrightarrow> unstruck p j \<and> \<not> (p * p \<le> j \<and> p dvd j)"
proof -
  have "{2..<p + 1} = insert p {2..<p}" using assms by auto
  then show ?thesis by (auto simp: unstruck_def)
qed

lemma unstruck_dead:
  assumes "2 \<le> p" "\<not> unstruck p p"
  shows "unstruck (p + 1) j \<longleftrightarrow> unstruck p j"
proof -
  from assms obtain d where d: "2 \<le> d" "d < p" "d * d \<le> p" "d dvd p"
    by (auto simp: unstruck_def)
  have "\<not> unstruck p j" if "p * p \<le> j" "p dvd j"
  proof -
    have "d * d \<le> j" using d that self_le_square [of p] by linarith
    moreover have "d dvd j" using d that by (meson dvd_trans)
    ultimately show ?thesis using d by (auto simp: unstruck_def)
  qed
  then show ?thesis using assms by (auto simp: unstruck_step)
qed

lemma unstruck_prime:
  assumes "2 \<le> j" "j < p * p" "0 \<le> p"
  shows "unstruck p j \<longleftrightarrow> prime_number j"
proof
  assume u: "unstruck p j"
  have "\<not> d dvd j" if "d \<in> {2..<j}" for d
  proof
    assume "d dvd j"
    then obtain e where e: "j = d * e" by (auto simp: dvd_def)
    have d: "2 \<le> d" "d < j" using that by auto
    have "1 < e"
    proof (rule ccontr)
      assume "\<not> 1 < e"
      then have "e \<le> 1" by simp
      then have "d * e \<le> d * 1" using d by (intro mult_left_mono) auto
      then show False using e d by simp
    qed
    then have e2: "2 \<le> e" by simp
    show False
    proof (cases "d \<le> e")
      case True
      then have "d * d \<le> d * e" using d by (intro mult_left_mono) auto
      then have dd: "d * d \<le> j" using e by simp
      then have "d * d < p * p" using assms by simp
      then have "d < p" using square_less_imp_less [of d p] assms by simp
      then show False using u d dd \<open>d dvd j\<close> by (auto simp: unstruck_def)
    next
      case False
      then have "e * e \<le> d * e" using e2 by (intro mult_right_mono) auto
      then have ee: "e * e \<le> j" using e by simp
      then have "e * e < p * p" using assms by simp
      then have "e < p" using square_less_imp_less [of e p] assms by simp
      moreover have "e dvd j" using e by simp
      ultimately show False using u e2 ee by (auto simp: unstruck_def)
    qed
  qed
  then show "prime_number j" using assms by (simp add: prime_number_def)
next
  assume pr: "prime_number j"
  have "\<not> d dvd j" if "d \<in> {2..<p}" "d * d \<le> j" for d
  proof -
    have "d * 2 \<le> d * d" using that by (intro mult_left_mono) auto
    moreover have "2 \<le> d" "d * d \<le> j" using that by auto
    ultimately have "d < j" by linarith
    then show ?thesis using pr that by (auto simp: prime_number_def)
  qed
  then show "unstruck p j" by (auto simp: unstruck_def)
qed

lemma unstruck_self: "2 \<le> p \<Longrightarrow> unstruck p p \<longleftrightarrow> prime_number p"
proof (rule unstruck_prime)
  assume "2 \<le> p"
  then have "p * 2 \<le> p * p" by (intro mult_left_mono) auto
  then show "p < p * p" using \<open>2 \<le> p\<close> by simp
qed auto

lemma sieved_2: "sieved 2 limit cells = init_cells 2 limit cells"
  by (simp add: sieved_def init_cells_def unstruck_2)

lemma length_sieved [simp]: "length (sieved p limit cells) = length cells"
  by (simp add: sieved_def)

lemma sieved_nth:
  "j < length cells \<Longrightarrow>
   sieved p limit cells ! j =
     (if 2 \<le> int j \<and> int j \<le> limit then Some (unstruck p (int j)) else cells ! j)"
  by (simp add: sieved_def)

lemma sieved_live:
  assumes "2 \<le> p"
  shows "strike p (p * p) limit (sieved p limit cells) = sieved (p + 1) limit cells"
proof (rule nth_equalityI)
  show "length (strike p (p * p) limit (sieved p limit cells)) = length (sieved (p + 1) limit cells)"
    by (simp add: strike_def)
next
  fix j assume "j < length (strike p (p * p) limit (sieved p limit cells))"
  then have j: "j < length cells" by (simp add: strike_def)
  have dv: "p dvd (int j - p * p) \<longleftrightarrow> p dvd int j"
    by (simp add: dvd_diff_left_iff)
  have "4 \<le> p * p"
  proof -
    have "2 * 2 \<le> p * p" using assms by (intro mult_mono) auto
    then show ?thesis by simp
  qed
  then show "strike p (p * p) limit (sieved p limit cells) ! j = sieved (p + 1) limit cells ! j"
    using j assms by (auto simp: strike_def sieved_def dv unstruck_step)
qed

lemma sieved_dead:
  "2 \<le> p \<Longrightarrow> \<not> unstruck p p \<Longrightarrow> sieved (p + 1) limit cells = sieved p limit cells"
  by (simp add: sieved_def unstruck_dead)

lemma sieved_final:
  assumes "2 \<le> p" "limit < p * p"
  shows "sieved p limit cells = primes_marked limit cells"
proof -
  have "unstruck p (int j) \<longleftrightarrow> prime_number (int j)" if "2 \<le> int j" "int j \<le> limit" for j
    using that assms by (intro unstruck_prime) auto
  then show ?thesis by (auto simp: sieved_def primes_marked_def)
qed

lemma examined_done: "0 \<le> p \<Longrightarrow> limit < p * p \<Longrightarrow> examined p limit = []"
proof -
  assume a: "0 \<le> p" "limit < p * p"
  have "\<not> q * q \<le> limit" if "p \<le> q" for q
  proof -
    have "p * p \<le> q * q" using a that by (intro mult_mono) auto
    then show ?thesis using a by simp
  qed
  then show ?thesis by (simp add: examined_def filter_empty_conv)
qed

lemma examined_step: "p * p \<le> limit \<Longrightarrow> examined p limit = p # examined (p + 1) limit"
proof -
  assume a: "p * p \<le> limit"
  then have "p \<le> limit" using self_le_square [of p] by linarith
  then have "[p..limit] = p # [p + 1..limit]" by (simp add: upto_rec1)
  then show ?thesis using a by (simp add: examined_def)
qed

lemma elim_log_done: "0 \<le> p \<Longrightarrow> limit < p * p \<Longrightarrow> elim_log p limit = []"
  by (simp add: elim_log_def examined_done)

lemma elim_log_step:
  "p * p \<le> limit \<Longrightarrow>
   elim_log p limit =
     Rd p # (if prime_number p then map Wr (multiples_from p (p * p) limit) else [])
       @ elim_log (p + 1) limit"
  by (simp add: elim_log_def examined_step)

lemma below_root_bound:
  fixes p :: int
  assumes "p * p \<le> limit" "limit < 46340 * 46340"
  shows "p < 46340"
proof -
  have "p * p < 46340 * 46340" using assms by linarith
  then show ?thesis by (rule square_less_imp_less) simp
qed

lemma mul_int_square:
  assumes "p * p \<le> INT_MAX"
  shows "mul_int p p = Inr (p * p)"
proof -
  have "(0::int) \<le> p * p" by (rule zero_le_square)
  then have "INT_MIN \<le> p * p" unfolding INT_MIN_def by linarith
  then show ?thesis using assms by (simp add: mul_int_def)
qed

lemma outer_body_live:
  assumes "is_prime w = Some cells" "cells ! nat p = Some True" "2 \<le> p" "p * p \<le> limit"
    "limit < 46340 * 46340" "limit < int (length cells)"
  shows "outer_body p limit w =
           Some (Inr (w\<lparr>is_prime := Some (strike p (p * p) limit cells),
                        accesses := accesses w @ Rd p # map Wr (multiples_from p (p * p) limit)\<rparr>))"
proof -
  let ?w' = "w\<lparr>accesses := accesses w @ [Rd p]\<rparr>"
  have p: "p < 46340" using assms by (intro below_root_bound)
  have "p \<le> limit" using assms self_le_square [of p] by linarith
  then have ld: "load w p = Inr (True, ?w')"
    using assms by (simp add: load_def)
  have ml: "mul_int p p = Inr (p * p)"
    using assms by (intro mul_int_square) (simp add: INT_MAX_def)
  have "inner_loop p (p * p) limit ?w' =
          Some (Inr (?w'\<lparr>is_prime := Some (strike p (p * p) limit cells),
                          accesses := accesses ?w' @ map Wr (multiples_from p (p * p) limit)\<rparr>))"
    by (rule inner_loop_eq) (use assms p in \<open>simp_all add: INT_MAX_def\<close>)
  then show ?thesis
    using ld ml by (simp add: outer_body_def)
qed

lemma outer_body_dead:
  assumes "is_prime w = Some cells" "cells ! nat p = Some False" "0 \<le> p" "p < int (length cells)"
  shows "outer_body p limit w = Some (Inr (w\<lparr>accesses := accesses w @ [Rd p]\<rparr>))"
  using assms by (simp add: outer_body_def load_def)

lemma outer_body_eq:
  assumes "is_prime w = Some (sieved p limit cells0)" "2 \<le> p" "p * p \<le> limit"
    "limit < 46340 * 46340" "limit < int (length cells0)"
  shows "outer_body p limit w =
           Some (Inr (w\<lparr>is_prime := Some (sieved (p + 1) limit cells0),
                        accesses := accesses w @
                          Rd p # (if prime_number p then map Wr (multiples_from p (p * p) limit) else [])\<rparr>))"
proof -
  have pl: "p \<le> limit" using assms self_le_square [of p] by linarith
  then have at: "sieved p limit cells0 ! nat p = Some (unstruck p p)"
    using assms sieved_nth [of "nat p" cells0 p limit] by simp
  show ?thesis
  proof (cases "unstruck p p")
    case True
    then have "outer_body p limit w =
           Some (Inr (w\<lparr>is_prime := Some (strike p (p * p) limit (sieved p limit cells0)),
                        accesses := accesses w @ Rd p # map Wr (multiples_from p (p * p) limit)\<rparr>))"
      using assms at by (intro outer_body_live) simp_all
    then show ?thesis
      using True assms by (simp add: sieved_live unstruck_self)
  next
    case False
    then have "outer_body p limit w = Some (Inr (w\<lparr>accesses := accesses w @ [Rd p]\<rparr>))"
      using assms at pl by (intro outer_body_dead [where cells = "sieved p limit cells0"]) simp_all
    then show ?thesis
      using False assms by (simp add: sieved_dead unstruck_self)
  qed
qed

lemma outer_loop_eq:
  assumes "is_prime w = Some (sieved p limit cells0)" "2 \<le> p" "p \<le> 46340"
    "limit < 46340 * 46340" "limit < int (length cells0)"
  shows "outer_loop p limit w =
           Some (Inr (w\<lparr>is_prime := Some (primes_marked limit cells0),
                        accesses := accesses w @ elim_log p limit\<rparr>))"
  using assms
proof (induction "nat (46340 - p)" arbitrary: p w rule: less_induct)
  case less
  have "p * p \<le> 46340 * 46340" using less.prems by (intro mult_mono) auto
  then have ml: "mul_int p p = Inr (p * p)"
    by (intro mul_int_square) (simp add: INT_MAX_def)
  show ?case
  proof (cases "p * p \<le> limit")
    case False
    then show ?thesis
      using less.prems ml
      by (subst outer_loop.simps) (simp add: sieved_final elim_log_done)
  next
    case True
    let ?w' = "w\<lparr>is_prime := Some (sieved (p + 1) limit cells0),
                  accesses := accesses w @
                    Rd p # (if prime_number p then map Wr (multiples_from p (p * p) limit) else [])\<rparr>"
    have p: "p < 46340" using True less.prems by (intro below_root_bound)
    have body: "outer_body p limit w = Some (Inr ?w')"
      using True less.prems by (intro outer_body_eq) simp_all
    have ad: "add_int p 1 = Inr (p + 1)"
      using p less.prems by (simp add: add_int_def INT_MAX_def INT_MIN_def)
    have "outer_loop (p + 1) limit ?w' =
            Some (Inr (?w'\<lparr>is_prime := Some (primes_marked limit cells0),
                            accesses := accesses ?w' @ elim_log (p + 1) limit\<rparr>))"
      by (rule less.hyps) (use p less.prems in simp_all)
    then show ?thesis
      using True ml body ad
      by (subst outer_loop.simps) (simp add: elim_log_step)
  qed
qed

lemma inner_loop_total:
  assumes "is_prime w = Some cells" "0 \<le> i" "0 < p" "limit < int (length cells)"
  shows "inner_loop p i limit w = Some (Inl SignedOverflow) \<or>
         inner_loop p i limit w =
           Some (Inr (w\<lparr>is_prime := Some (strike p i limit cells),
                        accesses := accesses w @ map Wr (multiples_from p i limit)\<rparr>))"
  using assms
proof (induction "nat (limit + 1 - i)" arbitrary: i w cells rule: less_induct)
  case less
  show ?case
  proof (cases "i \<le> limit")
    case False
    then show ?thesis
      using less.prems
      by (subst (1 2) inner_loop.simps) (simp add: strike_done multiples_from_done)
  next
    case True
    let ?w' = "w\<lparr>is_prime := Some (cells[nat i := Some False]), accesses := accesses w @ [Wr i]\<rparr>"
    have st: "store w i False = Inr ?w'"
      using True less.prems by (simp add: store_def)
    show ?thesis
    proof (cases "i + p \<le> INT_MAX")
      case False
      then have "add_int i p = Inl SignedOverflow"
        by (simp add: add_int_def)
      then have "inner_loop p i limit w = Some (Inl SignedOverflow)"
        using True st by (subst inner_loop.simps) simp
      then show ?thesis ..
    next
      case fits: True
      then have ad: "add_int i p = Inr (i + p)"
        using less.prems by (simp add: add_int_def INT_MIN_def)
      have step: "inner_loop p i limit w = inner_loop p (i + p) limit ?w'"
        using True st ad by (subst inner_loop.simps) simp
      have "inner_loop p (i + p) limit ?w' = Some (Inl SignedOverflow) \<or>
            inner_loop p (i + p) limit ?w' =
            Some (Inr (?w'\<lparr>is_prime := Some (strike p (i + p) limit (cells[nat i := Some False])),
                     accesses := accesses ?w' @ map Wr (multiples_from p (i + p) limit)\<rparr>))"
        by (rule less.hyps) (use True less.prems in simp_all)
      then show ?thesis
        using True less.prems by (simp add: step strike_step multiples_from_step)
    qed
  qed
qed

lemma strike_nth:
  "j < length cells \<Longrightarrow>
   strike p i limit cells ! j =
     (if i \<le> int j \<and> int j \<le> limit \<and> p dvd (int j - i) then Some False else cells ! j)"
  by (simp add: strike_def)

lemma outer_loop_overflow:
  assumes "is_prime w = Some cells" "\<forall>j. 2 \<le> j \<and> j \<le> limit \<longrightarrow> cells ! nat j \<noteq> None"
    "limit < int (length cells)" "2 \<le> p" "p \<le> 46341" "46340 * 46340 \<le> limit"
  shows "outer_loop p limit w = Some (Inl SignedOverflow)"
  using assms
proof (induction "nat (46341 - p)" arbitrary: p w cells rule: less_induct)
  case less
  show ?case
  proof (cases "p = 46341")
    case True
    then show ?thesis
      by (subst outer_loop.simps) (simp add: mul_int_def INT_MAX_def)
  next
    case False
    then have p: "p \<le> 46340" using less.prems by simp
    then have "p * p \<le> 46340 * 46340" using less.prems by (intro mult_mono) auto
    then have pp: "p * p \<le> limit" "p * p \<le> INT_MAX"
      using less.prems by (simp_all add: INT_MAX_def)
    then have ml: "mul_int p p = Inr (p * p)"
      by (intro mul_int_square)
    have ad: "add_int p 1 = Inr (p + 1)"
      using p less.prems by (simp add: add_int_def INT_MAX_def INT_MIN_def)
    have pl: "p \<le> limit" using pp self_le_square [of p] by linarith
    then obtain b where b: "cells ! nat p = Some b"
      using less.prems by (metis not_None_eq)
    let ?w' = "w\<lparr>accesses := accesses w @ [Rd p]\<rparr>"
    have ld: "load w p = Inr (b, ?w')"
      using less.prems pl b by (simp add: load_def)
    show ?thesis
    proof (cases b)
      case dead: False
      then have body: "outer_body p limit w = Some (Inr ?w')"
        using ld by (simp add: outer_body_def)
      have "outer_loop (p + 1) limit ?w' = Some (Inl SignedOverflow)"
        by (rule less.hyps [where cells = cells]) (use p less.prems in simp_all)
      then show ?thesis
        using pp ml body ad by (subst outer_loop.simps) simp
    next
      case live: True
      let ?w'' = "?w'\<lparr>is_prime := Some (strike p (p * p) limit cells),
                        accesses := accesses ?w' @ map Wr (multiples_from p (p * p) limit)\<rparr>"
      have body: "outer_body p limit w = inner_loop p (p * p) limit ?w'"
        using ld ml live by (simp add: outer_body_def)
      have "inner_loop p (p * p) limit ?w' = Some (Inl SignedOverflow) \<or>
            inner_loop p (p * p) limit ?w' = Some (Inr ?w'')"
        by (rule inner_loop_total) (use less.prems in simp_all)
      then show ?thesis
      proof
        assume "inner_loop p (p * p) limit ?w' = Some (Inl SignedOverflow)"
        then show ?thesis
          using pp ml body by (subst outer_loop.simps) simp
      next
        assume inner: "inner_loop p (p * p) limit ?w' = Some (Inr ?w'')"
        have "outer_loop (p + 1) limit ?w'' = Some (Inl SignedOverflow)"
        proof (rule less.hyps [where cells = "strike p (p * p) limit cells"])
          show "\<forall>j. 2 \<le> j \<and> j \<le> limit \<longrightarrow> strike p (p * p) limit cells ! nat j \<noteq> None"
          proof (intro allI impI)
            fix j :: int assume j: "2 \<le> j \<and> j \<le> limit"
            then have "nat j < length cells" using less.prems(3) by linarith
            moreover have "cells ! nat j \<noteq> None" using j less.prems by blast
            ultimately show "strike p (p * p) limit cells ! nat j \<noteq> None"
              by (auto simp: strike_nth)
          qed
        qed (use p less.prems in \<open>simp_all add: strike_def\<close>)
        then show ?thesis
          using pp ml body inner ad by (subst outer_loop.simps) simp
      qed
    qed
  qed
qed

lemma requested_eq: "requested limit = nat ((limit + 1) mod 2 ^ 64)"
  by (simp add: requested_def mul_size_t_def to_size_t_def sizeof_bool_def)

lemma requested_nonneg: "- 1 \<le> limit \<Longrightarrow> limit \<le> INT_MAX \<Longrightarrow> requested limit = nat (limit + 1)"
  by (simp add: requested_eq INT_MAX_def)

lemma requested_covers: "limit \<le> INT_MAX \<Longrightarrow> limit < int (requested limit)"
proof (cases "- 1 \<le> limit")
  case True
  assume "limit \<le> INT_MAX"
  then show ?thesis using True by (simp add: requested_nonneg)
next
  case False
  then show ?thesis by (simp add: requested_eq)
qed

lemma allocate_eq:
  assumes "INT_MIN \<le> limit" "limit < INT_MAX"
  shows "allocate avail limit w =
           Inr (w\<lparr>is_prime := if avail (requested limit)
                                then Some (replicate (requested limit) None) else None\<rparr>)"
  using assms
  by (simp add: allocate_def add_int_def malloc_def requested_def sizeof_bool_def INT_MIN_def)

lemma allocate_overflow: "allocate avail INT_MAX w = Inl SignedOverflow"
  by (simp add: allocate_def add_int_def INT_MAX_def)

section \<open>The function in closed form\<close>

lemma loops_eq:
  assumes "is_prime w = Some cells" "limit < 46340 * 46340" "limit < int (length cells)"
  shows "init_loop 2 limit w =
           Inr (w\<lparr>is_prime := Some (init_cells 2 limit cells),
                  accesses := accesses w @ map Wr [2..limit]\<rparr>)"
    and "outer_loop 2 limit
           (w\<lparr>is_prime := Some (init_cells 2 limit cells),
              accesses := accesses w @ map Wr [2..limit]\<rparr>) =
           Some (Inr (w\<lparr>is_prime := Some (primes_marked limit cells),
                        accesses := accesses w @ map Wr [2..limit] @ elim_log 2 limit\<rparr>))"
proof -
  let ?w' = "w\<lparr>is_prime := Some (init_cells 2 limit cells),
                accesses := accesses w @ map Wr [2..limit]\<rparr>"
  show "init_loop 2 limit w = Inr ?w'"
    by (rule init_loop_eq) (use assms in \<open>simp_all add: INT_MAX_def\<close>)
  have "outer_loop 2 limit ?w' =
          Some (Inr (?w'\<lparr>is_prime := Some (primes_marked limit cells),
                          accesses := accesses ?w' @ elim_log 2 limit\<rparr>))"
    by (rule outer_loop_eq) (use assms in \<open>simp_all add: sieved_2\<close>)
  then show "outer_loop 2 limit ?w' =
           Some (Inr (w\<lparr>is_prime := Some (primes_marked limit cells),
                        accesses := accesses w @ map Wr [2..limit] @ elim_log 2 limit\<rparr>))"
    by simp
qed

lemma sieve_eq:
  assumes "INT_MIN \<le> limit" "limit < 46340 * 46340" "avail (requested limit)"
  shows "sieve avail limit w =
           Some (Inr (w\<lparr>is_prime := Some (primes_marked limit (replicate (requested limit) None)),
                        accesses := accesses w @ map Wr [2..limit] @ elim_log 2 limit\<rparr>))"
proof -
  let ?w0 = "w\<lparr>is_prime := Some (replicate (requested limit) None)\<rparr>"
  have a: "allocate avail limit w = Inr ?w0"
    using assms by (simp add: allocate_eq INT_MAX_def)
  have c: "limit < int (length (replicate (requested limit) None))"
    using assms requested_covers [of limit] by (simp add: INT_MAX_def)
  show ?thesis
    using a loops_eq [of ?w0 "replicate (requested limit) None" limit, OF _ assms(2) c]
    by (simp add: sieve_def)
qed

lemma compute_primes_eq:
  assumes "INT_MIN \<le> limit" "limit < 46340 * 46340" "avail (requested limit)"
  shows "compute_primes avail limit w =
           Some (Inr (w\<lparr>is_prime := None,
                        accesses := accesses w @ map Wr [2..limit] @ elim_log 2 limit,
                        stdout := stdout w @ ''End Program\<newline>''\<rparr>))"
proof -
  let ?w0 = "w\<lparr>is_prime := Some (replicate (requested limit) None)\<rparr>"
  have a: "allocate avail limit w = Inr ?w0"
    using assms by (simp add: allocate_eq INT_MAX_def)
  have c: "limit < int (length (replicate (requested limit) None))"
    using assms requested_covers [of limit] by (simp add: INT_MAX_def)
  show ?thesis
    using a loops_eq [of ?w0 "replicate (requested limit) None" limit, OF _ assms(2) c]
    by (simp add: compute_primes_def free_def printf_def)
qed

lemma sieve_nomem:
  assumes "INT_MIN \<le> limit" "limit < INT_MAX" "\<not> avail (requested limit)"
  shows "sieve avail limit w = Some (Inr (w\<lparr>is_prime := None\<rparr>))"
  using assms by (simp add: sieve_def allocate_eq)

lemma compute_primes_nomem:
  assumes "INT_MIN \<le> limit" "limit < INT_MAX" "\<not> avail (requested limit)"
  shows "compute_primes avail limit w = Some (Inr (w\<lparr>is_prime := None\<rparr>))"
  using assms by (simp add: compute_primes_def allocate_eq)


lemma init_cells_nth:
  "j < length cells \<Longrightarrow>
   init_cells i limit cells ! j = (if i \<le> int j \<and> int j \<le> limit then Some True else cells ! j)"
  by (simp add: init_cells_def)

lemma primes_marked_nth:
  "j < length cells \<Longrightarrow>
   primes_marked limit cells ! j =
     (if 2 \<le> int j \<and> int j \<le> limit then Some (prime_number (int j)) else cells ! j)"
  by (simp add: primes_marked_def)

lemma length_primes_marked [simp]: "length (primes_marked limit cells) = length cells"
  by (simp add: primes_marked_def)

lemma length_init_cells [simp]: "length (init_cells i limit cells) = length cells"
  by (simp add: init_cells_def)

lemma cell_primes_marked:
  assumes "is_prime w = Some (primes_marked limit (replicate n None))" "limit < int n"
  shows "cell w i = (if 2 \<le> i \<and> i \<le> limit then Some (prime_number i) else None)"
proof (cases "0 \<le> i \<and> i < int n")
  case True
  then have "nat i < length (replicate n (None :: bool option))" by auto
  then show ?thesis
    using assms True by (simp add: cell_def primes_marked_nth)
next
  case False
  then show ?thesis using assms by (auto simp: cell_def)
qed

lemma candidates_primes_marked:
  assumes "is_prime w = Some (primes_marked limit (replicate n None))" "limit < int n"
  shows "candidates w = {i. 2 \<le> i \<and> i \<le> limit \<and> prime_number i}"
  using assms by (auto simp: candidates_def cell_primes_marked [OF assms] split: if_splits)

lemma cell_init_cells:
  assumes "is_prime w = Some (init_cells 2 limit (replicate n None))" "limit < int n"
  shows "cell w i = (if 2 \<le> i \<and> i \<le> limit then Some True else None)"
proof (cases "0 \<le> i \<and> i < int n")
  case True
  then have "nat i < length (replicate n (None :: bool option))" by auto
  then show ?thesis
    using assms True by (simp add: cell_def init_cells_nth)
next
  case False
  then show ?thesis using assms by (auto simp: cell_def)
qed

lemma set_multiples_from:
  assumes "0 < p"
  shows "set (multiples_from p i limit) = {j. i \<le> j \<and> j \<le> limit \<and> p dvd (j - i)}"
proof (intro equalityI subsetI)
  fix j assume "j \<in> set (multiples_from p i limit)"
  then have "j \<in> (\<lambda>k. i + int k * p) ` {0..<nat ((limit - i) div p + 1)}"
    by (simp add: multiples_from_def)
  then obtain k where k0: "j = i + int k * p" "k \<in> {0..<nat ((limit - i) div p + 1)}"
    by (rule imageE)
  then have k: "j = i + int k * p" "k < nat ((limit - i) div p + 1)"
    by simp_all
  then have "int k \<le> (limit - i) div p" by linarith
  then have "int k * p \<le> (limit - i) div p * p"
    using assms by (intro mult_right_mono) auto
  also have "\<dots> \<le> limit - i"
    using assms by (metis div_mult_mod_eq le_add_same_cancel1 pos_mod_sign)
  finally show "j \<in> {j. i \<le> j \<and> j \<le> limit \<and> p dvd (j - i)}"
    using k assms by simp
next
  fix j assume "j \<in> {j. i \<le> j \<and> j \<le> limit \<and> p dvd (j - i)}"
  then have j: "i \<le> j" "j \<le> limit" "p dvd (j - i)" by auto
  define m where "m = (j - i) div p"
  have jm: "j - i = m * p" using j by (simp add: m_def)
  have "0 \<le> m" using j assms by (simp add: m_def pos_imp_zdiv_nonneg_iff)
  moreover have "m \<le> (limit - i) div p"
    unfolding m_def using j assms by (intro zdiv_mono1) auto
  ultimately have "nat m < nat ((limit - i) div p + 1)" by linarith
  moreover have "j = i + int (nat m) * p" using jm \<open>0 \<le> m\<close> by simp
  ultimately show "j \<in> set (multiples_from p i limit)"
    unfolding multiples_from_def by (metis (no_types, lifting) atLeast0LessThan imageI lessThan_iff list.set_map set_upt)
qed

lemma set_examined: "set (examined p limit) = {q. p \<le> q \<and> q \<le> limit \<and> q * q \<le> limit}"
  by (auto simp: examined_def)

lemma elim_log_in_range:
  assumes "a \<in> set (elim_log 2 limit)"
  shows "2 \<le> index_of a \<and> index_of a \<le> limit"
proof -
  from assms obtain q where q: "2 \<le> q" "q \<le> limit" "q * q \<le> limit"
    and a: "a = Rd q \<or> a \<in> Wr ` set (multiples_from q (q * q) limit)"
    by (auto simp: elim_log_def set_examined split: if_splits)
  have "q * 2 \<le> q * q" using q by (intro mult_left_mono) auto
  then have qq: "2 \<le> q * q" using q by linarith
  from a show ?thesis
  proof
    assume "a = Rd q"
    then show ?thesis using q by simp
  next
    assume "a \<in> Wr ` set (multiples_from q (q * q) limit)"
    then obtain j where "a = Wr j" "q * q \<le> j" "j \<le> limit"
      using q by (auto simp: set_multiples_from)
    then show ?thesis using qq by simp
  qed
qed

lemma new_accesses_in_range:
  assumes "a \<in> set (map Wr [2..limit] @ elim_log 2 limit)"
  shows "2 \<le> index_of a \<and> index_of a \<le> limit"
  using assms elim_log_in_range by auto

lemma sieve_overflow:
  assumes "46340 * 46340 \<le> limit" "limit < INT_MAX" "avail (requested limit)"
  shows "sieve avail limit w = Some (Inl SignedOverflow)"
    and "compute_primes avail limit w = Some (Inl SignedOverflow)"
proof -
  let ?cells = "replicate (requested limit) (None :: bool option)"
  let ?w0 = "w\<lparr>is_prime := Some ?cells\<rparr>"
  let ?w1 = "?w0\<lparr>is_prime := Some (init_cells 2 limit ?cells),
                  accesses := accesses ?w0 @ map Wr [2..limit]\<rparr>"
  have a: "allocate avail limit w = Inr ?w0"
    using assms by (simp add: allocate_eq INT_MIN_def)
  have c: "limit < int (length ?cells)"
    using assms requested_covers [of limit] by simp
  have i: "init_loop 2 limit ?w0 = Inr ?w1"
    by (rule init_loop_eq) (use assms c in simp_all)
  have "outer_loop 2 limit ?w1 = Some (Inl SignedOverflow)"
  proof (rule outer_loop_overflow [where cells = "init_cells 2 limit ?cells"])
    show "\<forall>j. 2 \<le> j \<and> j \<le> limit \<longrightarrow> init_cells 2 limit ?cells ! nat j \<noteq> None"
    proof (intro allI impI)
      fix j :: int assume j: "2 \<le> j \<and> j \<le> limit"
      then have "nat j < length ?cells" using c by linarith
      then show "init_cells 2 limit ?cells ! nat j \<noteq> None"
        using j by (simp add: init_cells_nth)
    qed
  qed (use assms c in simp_all)
  then show "sieve avail limit w = Some (Inl SignedOverflow)"
    and "compute_primes avail limit w = Some (Inl SignedOverflow)"
    using a i by (simp_all add: sieve_def compute_primes_def)
qed

lemma int_max_overflow:
  "sieve avail INT_MAX w = Some (Inl SignedOverflow)"
  "compute_primes avail INT_MAX w = Some (Inl SignedOverflow)"
  by (simp_all add: sieve_def compute_primes_def allocate_overflow)

lemma primes_to_2: "{i. 2 \<le> i \<and> i \<le> 2 \<and> prime_number i} = {2}"
proof -
  have "{i. 2 \<le> i \<and> i \<le> 2 \<and> prime_number i} = Set.filter prime_number {2..2}"
    by auto
  also have "\<dots> = {2}" by code_simp
  finally show ?thesis .
qed

lemma primes_to_3: "{i. 2 \<le> i \<and> i \<le> 3 \<and> prime_number i} = {2, 3}"
proof -
  have "{i. 2 \<le> i \<and> i \<le> 3 \<and> prime_number i} = Set.filter prime_number {2..3}"
    by auto
  also have "\<dots> = {2, 3}" by code_simp
  finally show ?thesis .
qed

lemma primes_to_10: "{i. 2 \<le> i \<and> i \<le> 10 \<and> prime_number i} = {2, 3, 5, 7}"
proof -
  have "{i. 2 \<le> i \<and> i \<le> 10 \<and> prime_number i} = Set.filter prime_number {2..10}"
    by auto
  also have "\<dots> = {2, 3, 5, 7}" by code_simp
  finally show ?thesis .
qed

lemma prime_number_iff:
  "prime_number n \<longleftrightarrow> 1 < n \<and> (\<forall>d. 0 < d \<and> d dvd n \<longrightarrow> d = 1 \<or> d = n)"
proof
  assume p: "prime_number n"
  have "d = 1 \<or> d = n" if "0 < d" "d dvd n" for d
  proof -
    have "d \<le> n" using that p by (intro zdvd_imp_le) (auto simp: prime_number_def)
    then show ?thesis using that p by (auto simp: prime_number_def)
  qed
  then show "1 < n \<and> (\<forall>d. 0 < d \<and> d dvd n \<longrightarrow> d = 1 \<or> d = n)"
    using p by (auto simp: prime_number_def)
next
  assume a: "1 < n \<and> (\<forall>d. 0 < d \<and> d dvd n \<longrightarrow> d = 1 \<or> d = n)"
  have "\<not> d dvd n" if "d \<in> {2..<n}" for d
  proof
    assume "d dvd n"
    moreover have "0 < d" "d \<noteq> 1" "d \<noteq> n" using that by auto
    ultimately show False using a by blast
  qed
  then show "prime_number n" using a by (simp add: prime_number_def)
qed

lemma cell_fresh:
  "is_prime w = Some (replicate n None) \<Longrightarrow> cell w i = None"
  by (auto simp: cell_def)

lemma candidates_fresh:
  "is_prime w = Some (replicate n None) \<Longrightarrow> candidates w = {}"
  by (simp add: candidates_def cell_fresh)

lemma candidates_null: "is_prime w = None \<Longrightarrow> candidates w = {}"
  by (simp add: candidates_def)

lemma prime_sets_mono:
  "n \<le> m \<Longrightarrow> {i. 2 \<le> i \<and> i \<le> n \<and> prime_number i} \<subseteq> {i. 2 \<le> i \<and> i \<le> m \<and> prime_number i}"
  by auto

lemma sieve_marking_same:
  assumes "INT_MIN \<le> limit" "limit \<le> INT_MAX"
  shows "map_option (map_sum id is_prime) (sieve avail limit w') =
         map_option (map_sum id is_prime) (sieve avail limit w)"
proof (cases "limit = INT_MAX")
  case True
  then show ?thesis by (simp add: int_max_overflow)
next
  case False
  then have lt: "limit < INT_MAX" using assms by simp
  show ?thesis
  proof (cases "avail (requested limit)")
    case no: False
    then show ?thesis using assms lt by (simp add: sieve_nomem)
  next
    case yes: True
    show ?thesis
    proof (cases "limit < 46340 * 46340")
      case True
      then show ?thesis using assms yes by (simp add: sieve_eq)
    next
      case False
      then show ?thesis using lt yes by (simp add: sieve_overflow)
    qed
  qed
qed

lemma examined_upto:
  assumes "0 \<le> r" "r * r \<le> limit" "limit < (r + 1) * (r + 1)"
  shows "examined 2 limit = [2..r]"
proof -
  have iff: "q * q \<le> limit \<longleftrightarrow> q \<le> r" if "2 \<le> q" for q
  proof
    assume "q * q \<le> limit"
    then have "q * q < (r + 1) * (r + 1)" using assms(3) by (rule le_less_trans)
    moreover have "0 \<le> r + 1" using assms(1) by simp
    ultimately have "q < r + 1" by (rule square_less_imp_less)
    then show "q \<le> r" by simp
  next
    assume "q \<le> r"
    then have "q * q \<le> r * r" using that by (intro mult_mono) auto
    then show "q * q \<le> limit" using assms(2) by (rule order_trans)
  qed
  have rl: "r \<le> limit" using self_le_square [of r] assms(2) by (rule order_trans)
  have "examined 2 limit = filter (\<lambda>q. q \<le> r) [2..limit]"
    unfolding examined_def by (rule filter_cong) (auto simp: iff)
  also have "\<dots> = [2..r]"
  proof (cases "2 \<le> r")
    case True
    then have "[2..limit] = [2..r] @ [r + 1..limit]"
      using rl by (intro upto_split2) auto
    then show ?thesis by (simp add: filter_empty_conv)
  next
    case False
    then show ?thesis by (simp add: filter_empty_conv)
  qed
  finally show ?thesis .
qed

lemma outer_loop_step:
  assumes "2 \<le> p" "p * p \<le> limit" "limit < 46340 * 46340"
  shows "outer_loop p limit w =
           (case outer_body p limit w of
              None \<Rightarrow> None
            | Some (Inl e) \<Rightarrow> Some (Inl e)
            | Some (Inr w') \<Rightarrow> outer_loop (p + 1) limit w')"
proof -
  have p: "p < 46340" using assms by (intro below_root_bound)
  have ml: "mul_int p p = Inr (p * p)"
    using assms by (intro mul_int_square) (simp add: INT_MAX_def)
  have ad: "add_int p 1 = Inr (p + 1)"
    using p assms by (simp add: add_int_def INT_MAX_def INT_MIN_def)
  have "outer_loop p limit w =
          (case mul_int p p of
             Inl e \<Rightarrow> Some (Inl e)
           | Inr pp \<Rightarrow>
               if pp \<le> limit then
                 (case outer_body p limit w of
                    None \<Rightarrow> None
                  | Some (Inl e) \<Rightarrow> Some (Inl e)
                  | Some (Inr w') \<Rightarrow>
                      (case add_int p 1 of
                         Inl e \<Rightarrow> Some (Inl e)
                       | Inr p' \<Rightarrow> outer_loop p' limit w'))
               else Some (Inr w))"
    by (rule outer_loop.simps)
  also have "\<dots> =
          (case outer_body p limit w of
              None \<Rightarrow> None
            | Some (Inl e) \<Rightarrow> Some (Inl e)
            | Some (Inr w') \<Rightarrow> outer_loop (p + 1) limit w')"
    using assms ml ad by (simp del: outer_loop.simps split: option.split sum.split)
  finally show ?thesis .
qed

lemma outer_loop_exit:
  assumes "0 \<le> p" "p \<le> 46340" "limit < p * p"
  shows "outer_loop p limit w = Some (Inr w)"
proof -
  have "p * p \<le> 46340 * 46340" using assms by (intro mult_mono) auto
  then have ml: "mul_int p p = Inr (p * p)"
    by (intro mul_int_square) (simp add: INT_MAX_def)
  show ?thesis
    using assms ml by (subst outer_loop.simps) simp
qed

lemma set_multiples_from_square:
  assumes "0 < p"
  shows "set (multiples_from p (p * p) limit) = {j. p * p \<le> j \<and> j \<le> limit \<and> p dvd j}"
proof -
  have "p dvd (j - p * p) \<longleftrightarrow> p dvd j" for j
    by (simp add: dvd_diff_left_iff)
  then show ?thesis
    using assms by (simp add: set_multiples_from)
qed

lemma strike_nth_multiples:
  assumes "0 < p" "j < length cells"
  shows "strike p i limit cells ! j =
           (if int j \<in> set (multiples_from p i limit) then Some False else cells ! j)"
  using assms by (simp add: strike_nth set_multiples_from)

section \<open>The claims\<close>

text \<open>
  In what follows \<open>46340 * 46340 = 2147395600\<close> is the first bound at which the test
  \<open>p * p <= limit\<close> is evaluated on a product that does not fit a 32-bit \<open>int\<close>;
  bounds below it are the ones the function handles without undefined behaviour.
\<close>

subsection \<open>C1: the marking is exactly primality\<close>

text \<open>
  C1. For every bound \<open>limit \<ge> 2\<close> below \<open>46340 * 46340\<close> whose block is granted, the
  function reaches the end of the elimination loop, and there every index \<open>i\<close> with
  \<open>2 \<le> i \<le> limit\<close> is marked candidate (\<open>true\<close>) if and only if \<open>i\<close> is prime, and
  eliminated (\<open>false\<close>) if and only if it is not; the set of candidates is the set of
  primes up to \<open>limit\<close>, which is \<open>{2}\<close> for 2, \<open>{2, 3}\<close> for 3 and \<open>{2, 3, 5, 7}\<close> for 10.
\<close>

theorem sieve_marks_exactly_the_primes:
  assumes "2 \<le> limit" "limit < 46340 * 46340" "avail (requested limit)"
  shows "\<exists>w2. sieve avail limit w = Some (Inr w2) \<and>
           (\<forall>i. 2 \<le> i \<and> i \<le> limit \<longrightarrow> (cell w2 i = Some True \<longleftrightarrow> prime_number i)) \<and>
           (\<forall>i. 2 \<le> i \<and> i \<le> limit \<longrightarrow> (cell w2 i = Some False \<longleftrightarrow> \<not> prime_number i)) \<and>
           candidates w2 = {i. 2 \<le> i \<and> i \<le> limit \<and> prime_number i} \<and>
           (limit = 2 \<longrightarrow> candidates w2 = {2}) \<and>
           (limit = 3 \<longrightarrow> candidates w2 = {2, 3}) \<and>
           (limit = 10 \<longrightarrow> candidates w2 = {2, 3, 5, 7})"
proof -
  let ?cells = "primes_marked limit (replicate (requested limit) None)"
  let ?w2 = "w\<lparr>is_prime := Some ?cells,
               accesses := accesses w @ map Wr [2..limit] @ elim_log 2 limit\<rparr>"
  have run: "sieve avail limit w = Some (Inr ?w2)"
    using assms by (intro sieve_eq) (simp_all add: INT_MIN_def)
  have blk: "is_prime ?w2 = Some ?cells" by simp
  have cov: "limit < int (requested limit)"
    using assms by (intro requested_covers) (simp add: INT_MAX_def)
  have c: "cell ?w2 i = (if 2 \<le> i \<and> i \<le> limit then Some (prime_number i) else None)" for i
    using blk cov by (rule cell_primes_marked)
  have s: "candidates ?w2 = {i. 2 \<le> i \<and> i \<le> limit \<and> prime_number i}"
    using blk cov by (rule candidates_primes_marked)
  have "(\<forall>i. 2 \<le> i \<and> i \<le> limit \<longrightarrow> (cell ?w2 i = Some True \<longleftrightarrow> prime_number i))"
    by (simp add: c)
  moreover have "(\<forall>i. 2 \<le> i \<and> i \<le> limit \<longrightarrow> (cell ?w2 i = Some False \<longleftrightarrow> \<not> prime_number i))"
    by (simp add: c)
  moreover have "limit = 2 \<longrightarrow> candidates ?w2 = {2}"
  proof
    assume l: "limit = 2"
    have "candidates ?w2 = {i. 2 \<le> i \<and> i \<le> limit \<and> prime_number i}" by (rule s)
    also have "\<dots> = {2}" unfolding l by (rule primes_to_2)
    finally show "candidates ?w2 = {2}" .
  qed
  moreover have "limit = 3 \<longrightarrow> candidates ?w2 = {2, 3}"
  proof
    assume l: "limit = 3"
    have "candidates ?w2 = {i. 2 \<le> i \<and> i \<le> limit \<and> prime_number i}" by (rule s)
    also have "\<dots> = {2, 3}" unfolding l by (rule primes_to_3)
    finally show "candidates ?w2 = {2, 3}" .
  qed
  moreover have "limit = 10 \<longrightarrow> candidates ?w2 = {2, 3, 5, 7}"
  proof
    assume l: "limit = 10"
    have "candidates ?w2 = {i. 2 \<le> i \<and> i \<le> limit \<and> prime_number i}" by (rule s)
    also have "\<dots> = {2, 3, 5, 7}" unfolding l by (rule primes_to_10)
    finally show "candidates ?w2 = {2, 3, 5, 7}" .
  qed
  ultimately show ?thesis
    using run s by blast
qed

text \<open>The bound 10, with an allocator that grants up to 11 bytes.\<close>

theorem sieve_marks_exactly_the_primes_witness:
  "(2::int) \<le> 10 \<and> (10::int) < 46340 * 46340 \<and> requested 10 = 11 \<and>
   (\<exists>w2. sieve (\<lambda>n. n \<le> 11) 10 initial_world = Some (Inr w2) \<and>
      (cell w2 7 = Some True \<longleftrightarrow> prime_number 7) \<and>
      (cell w2 9 = Some False \<longleftrightarrow> \<not> prime_number 9) \<and>
      candidates w2 = {2, 3, 5, 7})"
proof -
  have r: "requested 10 = 11"
    by (simp add: requested_eq)
  have h: "(2::int) \<le> 10" "(10::int) < 46340 * 46340" "(\<lambda>n::nat. n \<le> 11) (requested 10)"
    using r by simp_all
  from sieve_marks_exactly_the_primes [of 10 "\<lambda>n. n \<le> 11" initial_world, OF h]
  obtain w2 where w2: "sieve (\<lambda>n. n \<le> 11) 10 initial_world = Some (Inr w2)"
    "\<forall>i. 2 \<le> i \<and> i \<le> 10 \<longrightarrow> (cell w2 i = Some True \<longleftrightarrow> prime_number i)"
    "\<forall>i. 2 \<le> i \<and> i \<le> 10 \<longrightarrow> (cell w2 i = Some False \<longleftrightarrow> \<not> prime_number i)"
    "candidates w2 = {2, 3, 5, 7}"
    by blast
  have "cell w2 7 = Some True \<longleftrightarrow> prime_number 7" using w2(2) by simp
  moreover have "cell w2 9 = Some False \<longleftrightarrow> \<not> prime_number 9" using w2(3) by simp
  ultimately show ?thesis using r w2(1,4) by simp
qed

subsection \<open>C2: a failed allocation\<close>

text \<open>
  C2 as stated fails: the function is \<open>void\<close> and leaves on a bare \<open>return\<close>, so a failed
  allocation is not signalled. At the bound 10 with an allocator that grants nothing the
  call returns normally and the state it leaves is the state it found: no value, no
  message, nothing by which the caller is told.
\<close>

theorem failed_allocation_leaves_no_trace:
  "compute_primes (\<lambda>n. False) 10 initial_world = Some (Inr initial_world)"
  by (simp add: compute_primes_def allocate_def add_int_def INT_MAX_def INT_MIN_def malloc_def
      initial_world_def)

text \<open>
  C2, amended. If the allocation of the marking array fails, the function returns at
  once and normally: it produces no result, prints nothing, performs no further
  computation and never reads or writes through the null pointer. It does not signal the
  failure: it returns no value, and the state it leaves differs from the one it found in
  nothing but its own (null) pointer.
\<close>

theorem failed_allocation_returns_silently:
  assumes "INT_MIN \<le> limit" "limit < INT_MAX" "\<not> avail (requested limit)"
  shows "compute_primes avail limit w = Some (Inr (w\<lparr>is_prime := None\<rparr>)) \<and>
         sieve avail limit w = Some (Inr (w\<lparr>is_prime := None\<rparr>)) \<and>
         accesses (w\<lparr>is_prime := None\<rparr>) = accesses w \<and>
         stdout (w\<lparr>is_prime := None\<rparr>) = stdout w \<and>
         candidates (w\<lparr>is_prime := None\<rparr>) = {}"
  using assms by (simp add: compute_primes_nomem sieve_nomem candidates_null)

text \<open>The bound 10, with an allocator that grants nothing.\<close>

theorem failed_allocation_returns_silently_witness:
  "INT_MIN \<le> 10 \<and> 10 < INT_MAX \<and> \<not> (\<lambda>n::nat. False) (requested 10) \<and>
   compute_primes (\<lambda>n. False) 10 initial_world =
     Some (Inr \<lparr>is_prime = None, accesses = [], stdout = []\<rparr>)"
proof -
  have h: "INT_MIN \<le> 10" "10 < INT_MAX" "\<not> (\<lambda>n::nat. False) (requested 10)"
    by (simp_all add: INT_MIN_def INT_MAX_def)
  from failed_allocation_returns_silently [of 10 "\<lambda>n. False" initial_world, OF h]
  have "compute_primes (\<lambda>n. False) 10 initial_world =
          Some (Inr (initial_world\<lparr>is_prime := None\<rparr>))"
    by blast
  then show ?thesis using h by (simp add: initial_world_def)
qed

subsection \<open>C3: bounds below two\<close>

text \<open>
  C3. For every bound \<open>limit < 2\<close> (0 and 1, and the negative ones) whose block is granted,
  the function succeeds and no index is marked or eliminated: the initialisation loop and
  the elimination loop both leave the state as the allocation made it, without one access
  to the block, the set of candidates is empty, and the function goes on to release the
  block and print its message.
\<close>

theorem nothing_marked_below_two:
  assumes "INT_MIN \<le> limit" "limit < 2" "avail (requested limit)"
  shows "\<exists>w0. allocate avail limit w = Inr w0 \<and>
           init_loop 2 limit w0 = Inr w0 \<and>
           outer_loop 2 limit w0 = Some (Inr w0) \<and>
           sieve avail limit w = Some (Inr w0) \<and>
           accesses w0 = accesses w \<and>
           candidates w0 = {} \<and>
           compute_primes avail limit w = Some (Inr (printf ''End Program\<newline>'' (free w0)))"
proof -
  let ?w0 = "w\<lparr>is_prime := Some (replicate (requested limit) None)\<rparr>"
  have a: "allocate avail limit w = Inr ?w0"
    using assms by (simp add: allocate_eq INT_MAX_def)
  have i: "init_loop 2 limit ?w0 = Inr ?w0"
    using assms by (subst init_loop.simps) simp
  have "mul_int 2 2 = Inr 4"
    by (simp add: mul_int_def INT_MAX_def INT_MIN_def)
  then have o: "outer_loop 2 limit ?w0 = Some (Inr ?w0)"
    using assms by (subst outer_loop.simps) simp
  have "candidates ?w0 = {}"
    by (rule candidates_fresh) simp
  moreover have "sieve avail limit w = Some (Inr ?w0)"
    using a i o by (simp add: sieve_def)
  moreover have "compute_primes avail limit w = Some (Inr (printf ''End Program\<newline>'' (free ?w0)))"
    using a i o by (simp add: compute_primes_def)
  moreover have "accesses ?w0 = accesses w" by simp
  ultimately show ?thesis
    using a i o by blast
qed

text \<open>The bound 1, with every request granted.\<close>

theorem nothing_marked_below_two_witness:
  "INT_MIN \<le> 1 \<and> (1::int) < 2 \<and>
   (\<exists>w0. sieve (\<lambda>n. True) 1 initial_world = Some (Inr w0) \<and>
      accesses w0 = [] \<and> candidates w0 = {} \<and>
      compute_primes (\<lambda>n. True) 1 initial_world =
        Some (Inr (printf ''End Program\<newline>'' (free w0))))"
proof -
  have h: "INT_MIN \<le> 1" "(1::int) < 2" "(\<lambda>n::nat. True) (requested 1)"
    by (simp_all add: INT_MIN_def)
  from nothing_marked_below_two [of 1 "\<lambda>n. True" initial_world, OF h]
  obtain w0 where "sieve (\<lambda>n. True) 1 initial_world = Some (Inr w0)"
    "accesses w0 = accesses initial_world" "candidates w0 = {}"
    "compute_primes (\<lambda>n. True) 1 initial_world =
       Some (Inr (printf ''End Program\<newline>'' (free w0)))"
    by blast
  then show ?thesis using h by (auto simp: initial_world_def)
qed

subsection \<open>C4: the state after the initialisation loop\<close>

text \<open>
  C4 as stated fails: the loop of line 11 starts at 2 and \<open>malloc\<close> does not initialise,
  so cells 0 and 1 are never given the "eliminated" value. At the bound 10 they hold no
  value at all after the loop.
\<close>

theorem cells_0_and_1_left_unwritten:
  "allocate (\<lambda>n. True) 10 initial_world =
     Inr \<lparr>is_prime = Some (replicate 11 None), accesses = [], stdout = []\<rparr> \<and>
   init_loop 2 10 \<lparr>is_prime = Some (replicate 11 None), accesses = [], stdout = []\<rparr> =
     Inr \<lparr>is_prime = Some [None, None, Some True, Some True, Some True, Some True, Some True,
                            Some True, Some True, Some True, Some True],
          accesses = [Wr 2, Wr 3, Wr 4, Wr 5, Wr 6, Wr 7, Wr 8, Wr 9, Wr 10],
          stdout = []\<rparr> \<and>
   cell \<lparr>is_prime = Some [None, None, Some True, Some True, Some True, Some True, Some True,
                          Some True, Some True, Some True, Some True],
        accesses = [Wr 2, Wr 3, Wr 4, Wr 5, Wr 6, Wr 7, Wr 8, Wr 9, Wr 10],
        stdout = []\<rparr> 0 \<noteq> Some False \<and>
   cell \<lparr>is_prime = Some [None, None, Some True, Some True, Some True, Some True, Some True,
                          Some True, Some True, Some True, Some True],
        accesses = [Wr 2, Wr 3, Wr 4, Wr 5, Wr 6, Wr 7, Wr 8, Wr 9, Wr 10],
        stdout = []\<rparr> 1 \<noteq> Some False"
  by (simp add: allocate_def add_int_def INT_MAX_def INT_MIN_def malloc_def to_size_t_def
      mul_size_t_def sizeof_bool_def initial_world_def store_def cell_def eval_nat_numeral)

text \<open>
  C4, amended. After the initialisation loop every index \<open>i\<close> with \<open>2 \<le> i \<le> limit\<close>
  holds the candidate value, and no other cell holds a value: cells 0 and 1 are not
  written (the writes are those of 2, 3, ..., \<open>limit\<close>, in this order) and stay
  uninitialised.
\<close>

theorem init_marks_from_two_only:
  assumes "INT_MIN \<le> limit" "limit < INT_MAX" "avail (requested limit)"
  shows "\<exists>w0 w1. allocate avail limit w = Inr w0 \<and>
           init_loop 2 limit w0 = Inr w1 \<and>
           (\<forall>i. 2 \<le> i \<and> i \<le> limit \<longrightarrow> cell w1 i = Some True) \<and>
           (\<forall>i. \<not> (2 \<le> i \<and> i \<le> limit) \<longrightarrow> cell w1 i = None) \<and>
           cell w1 0 = None \<and> cell w1 1 = None \<and>
           accesses w1 = accesses w @ map Wr [2..limit]"
proof -
  let ?cells = "replicate (requested limit) (None :: bool option)"
  let ?w0 = "w\<lparr>is_prime := Some ?cells\<rparr>"
  let ?w1 = "w\<lparr>is_prime := Some (init_cells 2 limit ?cells),
                accesses := accesses w @ map Wr [2..limit]\<rparr>"
  have a: "allocate avail limit w = Inr ?w0"
    using assms by (simp add: allocate_eq)
  have cov: "limit < int (requested limit)"
    using assms by (intro requested_covers) simp
  have "init_loop 2 limit ?w0 =
          Inr (?w0\<lparr>is_prime := Some (init_cells 2 limit ?cells),
                    accesses := accesses ?w0 @ map Wr [2..limit]\<rparr>)"
    by (rule init_loop_eq) (use assms cov in simp_all)
  then have i: "init_loop 2 limit ?w0 = Inr ?w1"
    by simp
  have c: "cell ?w1 i = (if 2 \<le> i \<and> i \<le> limit then Some True else None)" for i
    by (rule cell_init_cells) (use cov in simp_all)
  have "\<forall>i. 2 \<le> i \<and> i \<le> limit \<longrightarrow> cell ?w1 i = Some True"
    by (simp add: c)
  moreover have "\<forall>i. \<not> (2 \<le> i \<and> i \<le> limit) \<longrightarrow> cell ?w1 i = None"
    by (simp add: c)
  moreover have "cell ?w1 0 = None" "cell ?w1 1 = None"
    by (simp_all add: c)
  moreover have "accesses ?w1 = accesses w @ map Wr [2..limit]"
    by simp
  ultimately show ?thesis
    using a i by blast
qed

text \<open>The bound 10, with every request granted.\<close>

theorem init_marks_from_two_only_witness:
  "INT_MIN \<le> 10 \<and> 10 < INT_MAX \<and>
   (\<exists>w0 w1. allocate (\<lambda>n. True) 10 initial_world = Inr w0 \<and>
      init_loop 2 10 w0 = Inr w1 \<and>
      cell w1 2 = Some True \<and> cell w1 10 = Some True \<and>
      cell w1 0 = None \<and> cell w1 1 = None \<and>
      accesses w1 = [Wr 2, Wr 3, Wr 4, Wr 5, Wr 6, Wr 7, Wr 8, Wr 9, Wr 10])"
proof -
  have h: "INT_MIN \<le> 10" "10 < INT_MAX" "(\<lambda>n::nat. True) (requested 10)"
    by (simp_all add: INT_MIN_def INT_MAX_def)
  have u: "[2..10] = [2, 3, 4, 5, 6, 7, 8, 9, 10::int]"
    by (simp add: upto_rec1)
  from init_marks_from_two_only [of 10 "\<lambda>n. True" initial_world, OF h]
  obtain w0 w1 where w: "allocate (\<lambda>n. True) 10 initial_world = Inr w0"
    "init_loop 2 10 w0 = Inr w1"
    "\<forall>i. 2 \<le> i \<and> i \<le> 10 \<longrightarrow> cell w1 i = Some True"
    "cell w1 0 = None" "cell w1 1 = None"
    "accesses w1 = accesses initial_world @ map Wr [2..10]"
    by blast
  have "cell w1 2 = Some True" "cell w1 10 = Some True"
    using w(3) by simp_all
  moreover have "accesses w1 = [Wr 2, Wr 3, Wr 4, Wr 5, Wr 6, Wr 7, Wr 8, Wr 9, Wr 10]"
    using w(6) u by (simp add: initial_world_def)
  ultimately show ?thesis
    using h w(1,2,4,5) by blast
qed

subsection \<open>C5: the shape of the elimination loop\<close>

text \<open>
  C5. On a block of more than \<open>limit\<close> cells, for \<open>limit\<close> below \<open>46340 * 46340\<close> and
  \<open>p \<ge> 2\<close>: the elimination loop entered at \<open>p\<close> stops if \<open>p * p > limit\<close>; otherwise it
  runs its body for \<open>p\<close> and goes on with \<open>p + 1\<close>, whatever the body did. The body reads
  \<open>is_prime[p]\<close>; if that is \<open>false\<close> it does nothing more; if it is \<open>true\<close> it writes
  \<open>false\<close> at \<open>p * p\<close>, \<open>p * p + p\<close>, \<open>p * p + 2p\<close>, ..., in this order, which are exactly
  the multiples of \<open>p\<close> from \<open>p * p\<close> up to \<open>limit\<close> inclusive, and changes no other cell.
  Run after the initialisation loop, the elimination loop reads \<open>is_prime[q]\<close> for every
  \<open>q = 2, 3, ...\<close> with \<open>q * q \<le> limit\<close>, that is up to the integer square root of
  \<open>limit\<close>, and makes the inner pass for those \<open>q\<close> that are prime.
\<close>

theorem elimination_loop_shape:
  assumes "is_prime w = Some cells" "limit < int (length cells)" "limit < 46340 * 46340"
    and "2 \<le> p"
  shows "(p * p \<le> limit \<longrightarrow>
            outer_loop p limit w =
              (case outer_body p limit w of
                 None \<Rightarrow> None
               | Some (Inl e) \<Rightarrow> Some (Inl e)
               | Some (Inr w') \<Rightarrow> outer_loop (p + 1) limit w')) \<and>
         (limit < p * p \<and> p \<le> 46340 \<longrightarrow> outer_loop p limit w = Some (Inr w)) \<and>
         (p * p \<le> limit \<and> cells ! nat p = Some False \<longrightarrow>
            outer_body p limit w = Some (Inr (w\<lparr>accesses := accesses w @ [Rd p]\<rparr>))) \<and>
         (p * p \<le> limit \<and> cells ! nat p = Some True \<longrightarrow>
            outer_body p limit w =
              Some (Inr (w\<lparr>is_prime := Some (strike p (p * p) limit cells),
                           accesses := accesses w @
                             Rd p # map Wr (multiples_from p (p * p) limit)\<rparr>))) \<and>
         multiples_from p (p * p) limit =
           map (\<lambda>k. p * p + int k * p) [0..<nat ((limit - p * p) div p + 1)] \<and>
         set (multiples_from p (p * p) limit) = {j. p * p \<le> j \<and> j \<le> limit \<and> p dvd j} \<and>
         length (strike p (p * p) limit cells) = length cells \<and>
         (\<forall>j<length cells.
            strike p (p * p) limit cells ! j =
              (if int j \<in> set (multiples_from p (p * p) limit) then Some False else cells ! j)) \<and>
         (\<exists>w1 w2. init_loop 2 limit w = Inr w1 \<and> outer_loop 2 limit w1 = Some (Inr w2) \<and>
            accesses w2 = accesses w1 @
              concat (map (\<lambda>q. Rd q # (if prime_number q
                                        then map Wr (multiples_from q (q * q) limit) else []))
                (examined 2 limit))) \<and>
         examined 2 limit = filter (\<lambda>q. q * q \<le> limit) [2..limit] \<and>
         (\<forall>r. 0 \<le> r \<and> r * r \<le> limit \<and> limit < (r + 1) * (r + 1) \<longrightarrow> examined 2 limit = [2..r])"
proof -
  have pl: "p \<le> limit" if "p * p \<le> limit"
    using self_le_square [of p] that by (rule order_trans)
  have step: "p * p \<le> limit \<longrightarrow>
            outer_loop p limit w =
              (case outer_body p limit w of
                 None \<Rightarrow> None
               | Some (Inl e) \<Rightarrow> Some (Inl e)
               | Some (Inr w') \<Rightarrow> outer_loop (p + 1) limit w')"
  proof
    assume "p * p \<le> limit"
    with assms(4) show "outer_loop p limit w =
              (case outer_body p limit w of
                 None \<Rightarrow> None
               | Some (Inl e) \<Rightarrow> Some (Inl e)
               | Some (Inr w') \<Rightarrow> outer_loop (p + 1) limit w')"
      using assms(3) by (rule outer_loop_step)
  qed
  have exit: "limit < p * p \<and> p \<le> 46340 \<longrightarrow> outer_loop p limit w = Some (Inr w)"
  proof
    assume a: "limit < p * p \<and> p \<le> 46340"
    show "outer_loop p limit w = Some (Inr w)"
      by (rule outer_loop_exit) (use a assms in simp_all)
  qed
  have dead: "p * p \<le> limit \<and> cells ! nat p = Some False \<longrightarrow>
            outer_body p limit w = Some (Inr (w\<lparr>accesses := accesses w @ [Rd p]\<rparr>))"
  proof
    assume a: "p * p \<le> limit \<and> cells ! nat p = Some False"
    then have "p < int (length cells)" using pl assms by linarith
    then show "outer_body p limit w = Some (Inr (w\<lparr>accesses := accesses w @ [Rd p]\<rparr>))"
      using a assms by (intro outer_body_dead [where cells = cells]) simp_all
  qed
  have live: "p * p \<le> limit \<and> cells ! nat p = Some True \<longrightarrow>
            outer_body p limit w =
              Some (Inr (w\<lparr>is_prime := Some (strike p (p * p) limit cells),
                           accesses := accesses w @
                             Rd p # map Wr (multiples_from p (p * p) limit)\<rparr>))"
  proof
    assume a: "p * p \<le> limit \<and> cells ! nat p = Some True"
    show "outer_body p limit w =
              Some (Inr (w\<lparr>is_prime := Some (strike p (p * p) limit cells),
                           accesses := accesses w @
                             Rd p # map Wr (multiples_from p (p * p) limit)\<rparr>))"
      by (rule outer_body_live) (use a assms in simp_all)
  qed
  have visits: "multiples_from p (p * p) limit =
           map (\<lambda>k. p * p + int k * p) [0..<nat ((limit - p * p) div p + 1)]"
    by (simp add: multiples_from_def)
  have struck: "set (multiples_from p (p * p) limit) = {j. p * p \<le> j \<and> j \<le> limit \<and> p dvd j}"
    using assms by (intro set_multiples_from_square) simp
  have len: "length (strike p (p * p) limit cells) = length cells"
    by (simp add: strike_def)
  have others: "\<forall>j<length cells.
            strike p (p * p) limit cells ! j =
              (if int j \<in> set (multiples_from p (p * p) limit) then Some False else cells ! j)"
    using assms by (intro allI impI strike_nth_multiples) simp_all
  let ?w1 = "w\<lparr>is_prime := Some (init_cells 2 limit cells),
               accesses := accesses w @ map Wr [2..limit]\<rparr>"
  let ?w2 = "w\<lparr>is_prime := Some (primes_marked limit cells),
               accesses := accesses w @ map Wr [2..limit] @ elim_log 2 limit\<rparr>"
  have "init_loop 2 limit w = Inr ?w1" "outer_loop 2 limit ?w1 = Some (Inr ?w2)"
    using assms by (simp_all add: loops_eq del: outer_loop.simps init_loop.simps)
  moreover have "accesses ?w2 = accesses ?w1 @
              concat (map (\<lambda>q. Rd q # (if prime_number q
                                        then map Wr (multiples_from q (q * q) limit) else []))
                (examined 2 limit))"
    by (simp add: elim_log_def)
  ultimately have run: "\<exists>w1 w2. init_loop 2 limit w = Inr w1 \<and>
            outer_loop 2 limit w1 = Some (Inr w2) \<and>
            accesses w2 = accesses w1 @
              concat (map (\<lambda>q. Rd q # (if prime_number q
                                        then map Wr (multiples_from q (q * q) limit) else []))
                (examined 2 limit))"
    by blast
  have ex: "examined 2 limit = filter (\<lambda>q. q * q \<le> limit) [2..limit]"
    by (simp add: examined_def)
  have root: "\<forall>r. 0 \<le> r \<and> r * r \<le> limit \<and> limit < (r + 1) * (r + 1) \<longrightarrow>
                examined 2 limit = [2..r]"
    by (auto intro: examined_upto)
  show ?thesis
    by (intro conjI step exit dead live visits struck len others run ex root)
qed

text \<open>
  The bound 10 and \<open>p = 2\<close>, first on the block as the initialisation loop leaves it
  (index 2 is a candidate: 4, 6, 8 and 10 are struck), then on a block whose cells are
  all \<open>false\<close> (nothing but the read).
\<close>

theorem elimination_loop_shape_witness:
  "(10::int) < 46340 * 46340 \<and> (2::int) * 2 \<le> 10 \<and>
   outer_body 2 10
     \<lparr>is_prime = Some [None, None, Some True, Some True, Some True, Some True, Some True,
                       Some True, Some True, Some True, Some True],
      accesses = [], stdout = []\<rparr> =
     Some (Inr \<lparr>is_prime = Some [None, None, Some True, Some True, Some False, Some True,
                                 Some False, Some True, Some False, Some True, Some False],
                accesses = [Rd 2, Wr 4, Wr 6, Wr 8, Wr 10], stdout = []\<rparr>) \<and>
   outer_body 2 10 \<lparr>is_prime = Some (replicate 11 (Some False)), accesses = [], stdout = []\<rparr> =
     Some (Inr \<lparr>is_prime = Some (replicate 11 (Some False)), accesses = [Rd 2],
                stdout = []\<rparr>) \<and>
   set (multiples_from 2 (2 * 2) 10) = {j. 2 * 2 \<le> j \<and> j \<le> 10 \<and> 2 dvd j} \<and>
   examined 2 10 = [2..3]"
proof -
  let ?cells = "[None, None, Some True, Some True, Some True, Some True, Some True,
                 Some True, Some True, Some True, Some True]"
  let ?w = "\<lparr>is_prime = Some ?cells, accesses = [], stdout = []\<rparr>"
  let ?v = "\<lparr>is_prime = Some (replicate 11 (Some False)), accesses = [], stdout = []\<rparr>"
  have h: "(10::int) < 46340 * 46340" "(2::int) \<le> 2" "(2::int) * 2 \<le> 10"
    by simp_all
  have m: "multiples_from 2 (2 * 2) 10 = [4, 6, 8, 10]"
    by code_simp
  have s: "strike 2 (2 * 2) 10 ?cells =
             [None, None, Some True, Some True, Some False, Some True,
              Some False, Some True, Some False, Some True, Some False]"
    by code_simp
  have c: "?cells ! nat 2 = Some True" "replicate 11 (Some False) ! nat 2 = Some False"
    "is_prime ?w = Some ?cells" "is_prime ?v = Some (replicate 11 (Some False))"
    "(10::int) < int (length ?cells)" "(10::int) < int (length (replicate 11 (Some False)))"
    by simp_all
  note on_w = elimination_loop_shape [of ?w ?cells 10 2, OF c(3) c(5) h(1) h(2)]
  note on_v = elimination_loop_shape [of ?v "replicate 11 (Some False)" 10 2, OF c(4) c(6) h(1) h(2)]
  from on_w h(3) c(1) have live: "outer_body 2 10 ?w =
      Some (Inr (?w\<lparr>is_prime := Some (strike 2 (2 * 2) 10 ?cells),
                     accesses := accesses ?w @ Rd 2 # map Wr (multiples_from 2 (2 * 2) 10)\<rparr>))"
    by blast
  from on_w have st: "set (multiples_from 2 (2 * 2) 10) = {j. 2 * 2 \<le> j \<and> j \<le> 10 \<and> 2 dvd j}"
    by blast
  from on_w have rt: "\<forall>r. 0 \<le> r \<and> r * r \<le> 10 \<and> 10 < (r + 1) * (r + 1) \<longrightarrow> examined 2 10 = [2..r]"
    by blast
  from on_v h(3) c(2) have dead: "outer_body 2 10 ?v = Some (Inr (?v\<lparr>accesses := accesses ?v @ [Rd 2]\<rparr>))"
    by blast
  have "outer_body 2 10 ?w =
     Some (Inr \<lparr>is_prime = Some [None, None, Some True, Some True, Some False, Some True,
                                 Some False, Some True, Some False, Some True, Some False],
                accesses = [Rd 2, Wr 4, Wr 6, Wr 8, Wr 10], stdout = []\<rparr>)"
    unfolding live m s by simp
  moreover have "outer_body 2 10 ?v =
     Some (Inr \<lparr>is_prime = Some (replicate 11 (Some False)), accesses = [Rd 2],
                stdout = []\<rparr>)"
    unfolding dead by simp
  moreover have "examined 2 10 = [2..3]"
  proof -
    have "(0::int) \<le> 3 \<and> (3::int) * 3 \<le> 10 \<and> (10::int) < (3 + 1) * (3 + 1)" by simp
    then show ?thesis using rt by blast
  qed
  ultimately show ?thesis
    using st h by blast
qed

subsection \<open>C6: arithmetic\<close>

text \<open>
  C6 as stated fails: the function rejects no bound. At \<open>limit = 2147395600\<close>
  (\<open>46340 * 46340\<close>), with the block granted, it computes on: the outer loop reaches
  \<open>p = 46341\<close>, whose square does not fit a 32-bit \<open>int\<close>, unless an \<open>i += p\<close> has left
  the range before. Either is a signed overflow.
\<close>

theorem large_bound_overflows:
  "compute_primes (\<lambda>n. True) 2147395600 initial_world = Some (Inl SignedOverflow)"
  by (rule sieve_overflow) (simp_all add: INT_MAX_def)

text \<open>
  C6, amended. For every bound below \<open>46340 * 46340 = 2147395600\<close>, no step other than
  the allocation can fail: \<open>limit + 1\<close>, every \<open>p * p\<close>, \<open>p++\<close>, \<open>i++\<close> and \<open>i += p\<close> stay
  within \<open>int\<close> and the function returns normally, as it does for any bound below
  \<open>INT_MAX\<close> whose allocation fails. The function checks no bound: from \<open>2147395600\<close> on,
  when the block is granted, and at \<open>INT_MAX\<close> in any case (there \<open>limit + 1\<close> itself
  overflows), the run ends in a signed overflow.
\<close>

theorem overflow_free_exactly_below_bound:
  assumes "INT_MIN \<le> limit" "limit \<le> INT_MAX"
  shows "(limit < 46340 * 46340 \<or> (limit < INT_MAX \<and> \<not> avail (requested limit)) \<longrightarrow>
            (\<exists>w'. compute_primes avail limit w = Some (Inr w'))) \<and>
         (46340 * 46340 \<le> limit \<and> (limit = INT_MAX \<or> avail (requested limit)) \<longrightarrow>
            compute_primes avail limit w = Some (Inl SignedOverflow))"
proof (intro conjI impI)
  assume a: "limit < 46340 * 46340 \<or> (limit < INT_MAX \<and> \<not> avail (requested limit))"
  show "\<exists>w'. compute_primes avail limit w = Some (Inr w')"
  proof (cases "avail (requested limit)")
    case True
    then have "limit < 46340 * 46340" using a by blast
    then show ?thesis using assms True by (simp add: compute_primes_eq)
  next
    case False
    moreover have "limit < INT_MAX" using a by (auto simp: INT_MAX_def)
    ultimately show ?thesis using assms by (simp add: compute_primes_nomem)
  qed
next
  assume a: "46340 * 46340 \<le> limit \<and> (limit = INT_MAX \<or> avail (requested limit))"
  show "compute_primes avail limit w = Some (Inl SignedOverflow)"
  proof (cases "limit = INT_MAX")
    case True
    then show ?thesis by (simp add: int_max_overflow)
  next
    case False
    then have "limit < INT_MAX" "avail (requested limit)" using a assms by auto
    then show ?thesis using a by (intro sieve_overflow) simp_all
  qed
qed

text \<open>The bounds 1000000 (the one \<open>main\<close> passes) and 2147395600, every request granted.\<close>

theorem overflow_free_exactly_below_bound_witness:
  "INT_MIN \<le> 1000000 \<and> 1000000 \<le> INT_MAX \<and> (1000000::int) < 46340 * 46340 \<and>
   (\<exists>w'. compute_primes (\<lambda>n. True) 1000000 initial_world = Some (Inr w')) \<and>
   INT_MIN \<le> 2147395600 \<and> 2147395600 \<le> INT_MAX \<and> (46340::int) * 46340 \<le> 2147395600 \<and>
   compute_primes (\<lambda>n. True) 2147395600 initial_world = Some (Inl SignedOverflow)"
proof -
  have h: "INT_MIN \<le> 1000000" "1000000 \<le> INT_MAX" "INT_MIN \<le> 2147395600"
    "2147395600 \<le> INT_MAX"
    by (simp_all add: INT_MIN_def INT_MAX_def)
  have "\<exists>w'. compute_primes (\<lambda>n. True) 1000000 initial_world = Some (Inr w')"
    using overflow_free_exactly_below_bound [of 1000000 "\<lambda>n. True" initial_world, OF h(1,2)]
    by simp
  moreover have "compute_primes (\<lambda>n. True) 2147395600 initial_world = Some (Inl SignedOverflow)"
    using overflow_free_exactly_below_bound [of 2147395600 "\<lambda>n. True" initial_world, OF h(3,4)]
    by simp
  ultimately show ?thesis using h by simp
qed

subsection \<open>C7: a second call\<close>

text \<open>
  C7. For every bound, when a call has returned, a second call with the same bound from
  the state the first one left returns too, and repeats it: it ends with the same
  (released) pointer, prints what the first printed, makes the accesses the first made,
  and reaches the end of its elimination loop with the marking the first had there.
  More generally the marking reached never depends on the state a call starts from.
  (The allocator is the same function for both calls.)
\<close>

theorem second_call_repeats_first:
  assumes "INT_MIN \<le> limit" "limit \<le> INT_MAX"
    and "compute_primes avail limit w = Some (Inr w1)"
  shows "\<exists>w2. compute_primes avail limit w1 = Some (Inr w2) \<and>
           is_prime w2 = is_prime w1 \<and>
           drop (length (stdout w1)) (stdout w2) = drop (length (stdout w)) (stdout w1) \<and>
           drop (length (accesses w1)) (accesses w2) = drop (length (accesses w)) (accesses w1) \<and>
           map_option (map_sum id is_prime) (sieve avail limit w1) =
             map_option (map_sum id is_prime) (sieve avail limit w) \<and>
           (\<forall>w'. map_option (map_sum id is_prime) (sieve avail limit w') =
             map_option (map_sum id is_prime) (sieve avail limit w))"
proof -
  have m: "map_option (map_sum id is_prime) (sieve avail limit w') =
           map_option (map_sum id is_prime) (sieve avail limit w)" for w'
    using assms(1,2) by (rule sieve_marking_same)
  have lt: "limit < INT_MAX"
    using assms by (cases "limit = INT_MAX") (auto simp: int_max_overflow)
  show ?thesis
  proof (cases "avail (requested limit)")
    case False
    have "compute_primes avail limit w = Some (Inr (w\<lparr>is_prime := None\<rparr>))"
      using assms lt False by (intro compute_primes_nomem)
    then have w1: "w1 = w\<lparr>is_prime := None\<rparr>" using assms by simp
    have "compute_primes avail limit w1 = Some (Inr (w1\<lparr>is_prime := None\<rparr>))"
      using assms lt False by (intro compute_primes_nomem)
    then have "compute_primes avail limit w1 = Some (Inr w1)"
      by (simp add: w1)
    moreover have "is_prime w1 = is_prime w1"
      "drop (length (stdout w1)) (stdout w1) = drop (length (stdout w)) (stdout w1)"
      "drop (length (accesses w1)) (accesses w1) = drop (length (accesses w)) (accesses w1)"
      by (simp_all add: w1)
    ultimately show ?thesis using m by blast
  next
    case True
    have small: "limit < 46340 * 46340"
    proof (rule ccontr)
      assume "\<not> limit < 46340 * 46340"
      then have "compute_primes avail limit w = Some (Inl SignedOverflow)"
        using lt True by (intro sieve_overflow) simp_all
      then show False using assms by simp
    qed
    let ?new = "map Wr [2..limit] @ elim_log 2 limit"
    have "compute_primes avail limit w =
            Some (Inr (w\<lparr>is_prime := None, accesses := accesses w @ ?new,
                         stdout := stdout w @ ''End Program\<newline>''\<rparr>))"
      using assms small True by (intro compute_primes_eq)
    then have w1: "w1 = w\<lparr>is_prime := None, accesses := accesses w @ ?new,
                         stdout := stdout w @ ''End Program\<newline>''\<rparr>"
      using assms by simp
    have c2: "compute_primes avail limit w1 =
            Some (Inr (w1\<lparr>is_prime := None, accesses := accesses w1 @ ?new,
                         stdout := stdout w1 @ ''End Program\<newline>''\<rparr>))"
      using assms small True by (intro compute_primes_eq)
    let ?w2 = "w1\<lparr>is_prime := None, accesses := accesses w1 @ ?new,
                   stdout := stdout w1 @ ''End Program\<newline>''\<rparr>"
    have "is_prime ?w2 = is_prime w1"
      "drop (length (stdout w1)) (stdout ?w2) = drop (length (stdout w)) (stdout w1)"
      "drop (length (accesses w1)) (accesses ?w2) = drop (length (accesses w)) (accesses w1)"
      by (simp_all add: w1)
    then show ?thesis
      using c2 m by blast
  qed
qed

text \<open>The bound 10, every request granted, the first call from the initial state.\<close>

theorem second_call_repeats_first_witness:
  "INT_MIN \<le> 10 \<and> 10 \<le> INT_MAX \<and>
   compute_primes (\<lambda>n. True) 10 initial_world =
     Some (Inr \<lparr>is_prime = None,
                accesses = [Wr 2, Wr 3, Wr 4, Wr 5, Wr 6, Wr 7, Wr 8, Wr 9, Wr 10,
                            Rd 2, Wr 4, Wr 6, Wr 8, Wr 10, Rd 3, Wr 9],
                stdout = ''End Program\<newline>''\<rparr>) \<and>
   (\<exists>w2. compute_primes (\<lambda>n. True) 10
            \<lparr>is_prime = None,
             accesses = [Wr 2, Wr 3, Wr 4, Wr 5, Wr 6, Wr 7, Wr 8, Wr 9, Wr 10,
                         Rd 2, Wr 4, Wr 6, Wr 8, Wr 10, Rd 3, Wr 9],
             stdout = ''End Program\<newline>''\<rparr> = Some (Inr w2) \<and>
      is_prime w2 = None \<and>
      drop 12 (stdout w2) = ''End Program\<newline>'' \<and>
      drop 16 (accesses w2) =
        [Wr 2, Wr 3, Wr 4, Wr 5, Wr 6, Wr 7, Wr 8, Wr 9, Wr 10,
         Rd 2, Wr 4, Wr 6, Wr 8, Wr 10, Rd 3, Wr 9])"
proof -
  let ?w1 = "\<lparr>is_prime = None,
              accesses = [Wr 2, Wr 3, Wr 4, Wr 5, Wr 6, Wr 7, Wr 8, Wr 9, Wr 10,
                          Rd 2, Wr 4, Wr 6, Wr 8, Wr 10, Rd 3, Wr 9],
              stdout = ''End Program\<newline>''\<rparr>"
  have h: "INT_MIN \<le> 10" "10 \<le> INT_MAX"
    by (simp_all add: INT_MIN_def INT_MAX_def)
  have e: "compute_primes (\<lambda>n. True) 10 initial_world = Some (Inr ?w1)"
    by (simp add: compute_primes_def allocate_def add_int_def mul_int_def INT_MAX_def INT_MIN_def
      malloc_def to_size_t_def mul_size_t_def sizeof_bool_def initial_world_def store_def
      load_def outer_body_def inner_loop.simps free_def printf_def)
  from second_call_repeats_first [of 10 "\<lambda>n. True" initial_world ?w1, OF h e]
  obtain w2 where w2: "compute_primes (\<lambda>n. True) 10 ?w1 = Some (Inr w2)"
    "is_prime w2 = is_prime ?w1"
    "drop (length (stdout ?w1)) (stdout w2) = drop (length (stdout initial_world)) (stdout ?w1)"
    "drop (length (accesses ?w1)) (accesses w2) =
       drop (length (accesses initial_world)) (accesses ?w1)"
    by blast
  have "is_prime w2 = None" using w2(2) by simp
  moreover have "drop 12 (stdout w2) = ''End Program\<newline>''"
    using w2(3) by (simp add: initial_world_def eval_nat_numeral)
  moreover have "drop 16 (accesses w2) =
        [Wr 2, Wr 3, Wr 4, Wr 5, Wr 6, Wr 7, Wr 8, Wr 9, Wr 10,
         Rd 2, Wr 4, Wr 6, Wr 8, Wr 10, Rd 3, Wr 9]"
    using w2(4) by (simp add: initial_world_def eval_nat_numeral)
  ultimately show ?thesis
    using h e w2(1) by blast
qed

subsection \<open>C8: a larger bound reports no fewer primes\<close>

text \<open>
  C8. For bounds \<open>n \<le> m\<close> below \<open>46340 * 46340\<close>, when the block for \<open>m\<close> is granted, both
  runs reach the end of the elimination loop and every index the run for \<open>n\<close> reports as
  prime is reported as prime by the run for \<open>m\<close>.
\<close>

theorem candidates_monotone:
  assumes "INT_MIN \<le> n" "n \<le> m" "m < 46340 * 46340" "avail' (requested m)"
  shows "\<exists>wn wm. sieve avail n w = Some (Inr wn) \<and> sieve avail' m w' = Some (Inr wm) \<and>
           candidates wn \<subseteq> candidates wm"
proof -
  let ?wm = "w'\<lparr>is_prime := Some (primes_marked m (replicate (requested m) None)),
                accesses := accesses w' @ map Wr [2..m] @ elim_log 2 m\<rparr>"
  have sm: "sieve avail' m w' = Some (Inr ?wm)"
    using assms by (intro sieve_eq) simp_all
  have "m < int (requested m)"
    using assms by (intro requested_covers) (simp add: INT_MAX_def)
  then have cm: "candidates ?wm = {i. 2 \<le> i \<and> i \<le> m \<and> prime_number i}"
    by (intro candidates_primes_marked) simp_all
  show ?thesis
  proof (cases "avail (requested n)")
    case True
    let ?wn = "w\<lparr>is_prime := Some (primes_marked n (replicate (requested n) None)),
                  accesses := accesses w @ map Wr [2..n] @ elim_log 2 n\<rparr>"
    have sn: "sieve avail n w = Some (Inr ?wn)"
      using assms True by (intro sieve_eq) simp_all
    have "n < int (requested n)"
      using assms by (intro requested_covers) (simp add: INT_MAX_def)
    then have "candidates ?wn = {i. 2 \<le> i \<and> i \<le> n \<and> prime_number i}"
      by (intro candidates_primes_marked) simp_all
    then have "candidates ?wn \<subseteq> candidates ?wm"
      using cm prime_sets_mono [OF assms(2)] by simp
    then show ?thesis using sn sm by blast
  next
    case False
    have sn: "sieve avail n w = Some (Inr (w\<lparr>is_prime := None\<rparr>))"
      using assms False by (intro sieve_nomem) (simp_all add: INT_MAX_def)
    have "candidates (w\<lparr>is_prime := None\<rparr>) = {}"
      by (rule candidates_null) simp
    then show ?thesis using sn sm by blast
  qed
qed

text \<open>The bounds 3 and 10, with every request granted.\<close>

theorem candidates_monotone_witness:
  "INT_MIN \<le> 3 \<and> (3::int) \<le> 10 \<and> (10::int) < 46340 * 46340 \<and>
   (\<exists>wn wm. sieve (\<lambda>n. True) 3 initial_world = Some (Inr wn) \<and>
      sieve (\<lambda>n. True) 10 initial_world = Some (Inr wm) \<and>
      candidates wn \<subseteq> candidates wm)"
proof -
  have h: "INT_MIN \<le> 3" "(3::int) \<le> 10" "(10::int) < 46340 * 46340"
    "(\<lambda>n::nat. True) (requested 10)"
    by (simp_all add: INT_MIN_def)
  from candidates_monotone [of 3 10 "\<lambda>n. True" "\<lambda>n. True" initial_world initial_world, OF h]
  show ?thesis using h by blast
qed

subsection \<open>C9: what the caller gets\<close>

text \<open>
  C9 as stated fails: the function returns \<open>void\<close> and frees the block before it
  returns, so no primality mapping reaches the caller. At the bound 10 the state handed
  back has no block, and hence no candidate where the primes would be 2, 3, 5 and 7.
\<close>

theorem no_mapping_returned:
  "compute_primes (\<lambda>n. True) 10 initial_world =
     Some (Inr \<lparr>is_prime = None,
                accesses = [Wr 2, Wr 3, Wr 4, Wr 5, Wr 6, Wr 7, Wr 8, Wr 9, Wr 10,
                            Rd 2, Wr 4, Wr 6, Wr 8, Wr 10, Rd 3, Wr 9],
                stdout = ''End Program\<newline>''\<rparr>) \<and>
   candidates \<lparr>is_prime = None,
               accesses = [Wr 2, Wr 3, Wr 4, Wr 5, Wr 6, Wr 7, Wr 8, Wr 9, Wr 10,
                           Rd 2, Wr 4, Wr 6, Wr 8, Wr 10, Rd 3, Wr 9],
               stdout = ''End Program\<newline>''\<rparr> \<noteq> {2, 3, 5, 7}"
  by (simp add: compute_primes_def allocate_def add_int_def mul_int_def INT_MAX_def INT_MIN_def
      malloc_def to_size_t_def mul_size_t_def sizeof_bool_def initial_world_def store_def
      load_def outer_body_def inner_loop.simps free_def printf_def candidates_def)

text \<open>
  C9, amended. On success the function returns nothing to the caller: it releases the
  marking array and returns \<open>void\<close>, so the state it leaves has no block and no
  candidate. It prints the completion marker \<open>End Program\<close> once, after the elimination
  loop has ended and the block has been released, and prints nothing before.
\<close>

theorem block_released_marker_printed:
  assumes "INT_MIN \<le> limit" "limit < 46340 * 46340" "avail (requested limit)"
  shows "\<exists>w2 w'. sieve avail limit w = Some (Inr w2) \<and>
           compute_primes avail limit w = Some (Inr w') \<and>
           w' = printf ''End Program\<newline>'' (free w2) \<and>
           stdout w2 = stdout w \<and>
           stdout w' = stdout w @ ''End Program\<newline>'' \<and>
           is_prime w' = None \<and>
           candidates w' = {}"
proof -
  let ?w2 = "w\<lparr>is_prime := Some (primes_marked limit (replicate (requested limit) None)),
               accesses := accesses w @ map Wr [2..limit] @ elim_log 2 limit\<rparr>"
  let ?w' = "w\<lparr>is_prime := None,
               accesses := accesses w @ map Wr [2..limit] @ elim_log 2 limit,
               stdout := stdout w @ ''End Program\<newline>''\<rparr>"
  have s: "sieve avail limit w = Some (Inr ?w2)"
    using assms by (rule sieve_eq)
  have c: "compute_primes avail limit w = Some (Inr ?w')"
    using assms by (rule compute_primes_eq)
  have "?w' = printf ''End Program\<newline>'' (free ?w2)"
    by (simp add: printf_def free_def)
  moreover have "stdout ?w2 = stdout w" "stdout ?w' = stdout w @ ''End Program\<newline>''"
    "is_prime ?w' = None"
    by simp_all
  moreover have "candidates ?w' = {}"
    by (rule candidates_null) simp
  ultimately show ?thesis
    using s c by blast
qed

text \<open>The bound 10, with every request granted.\<close>

theorem block_released_marker_printed_witness:
  "INT_MIN \<le> 10 \<and> (10::int) < 46340 * 46340 \<and>
   (\<exists>w'. compute_primes (\<lambda>n. True) 10 initial_world = Some (Inr w') \<and>
      stdout w' = ''End Program\<newline>'' \<and> is_prime w' = None \<and> candidates w' = {})"
proof -
  have h: "INT_MIN \<le> 10" "(10::int) < 46340 * 46340" "(\<lambda>n::nat. True) (requested 10)"
    by (simp_all add: INT_MIN_def)
  from block_released_marker_printed [of 10 "\<lambda>n. True" initial_world, OF h]
  obtain w' where "compute_primes (\<lambda>n. True) 10 initial_world = Some (Inr w')"
    "stdout w' = stdout initial_world @ ''End Program\<newline>''" "is_prime w' = None"
    "candidates w' = {}"
    by blast
  then show ?thesis using h by (auto simp: initial_world_def)
qed

subsection \<open>C10: where the block is accessed\<close>

text \<open>
  C10. When the block of \<open>limit + 1\<close> flags is granted and \<open>limit\<close> is below
  \<open>46340 * 46340\<close>, so that no product \<open>p * p\<close> overflows, the function returns without a
  fault, and every read and every write of the marking array it has made is at an index
  from 2 to \<open>limit\<close>: within the block, and never at 0 or 1.
\<close>

theorem accesses_between_two_and_limit:
  assumes "INT_MIN \<le> limit" "limit < 46340 * 46340" "avail (requested limit)"
  shows "\<exists>w' new. compute_primes avail limit w = Some (Inr w') \<and>
           accesses w' = accesses w @ new \<and>
           (\<forall>a\<in>set new. 2 \<le> index_of a \<and> index_of a \<le> limit \<and>
              0 \<le> index_of a \<and> index_of a < int (requested limit) \<and>
              index_of a \<noteq> 0 \<and> index_of a \<noteq> 1)"
proof -
  let ?new = "map Wr [2..limit] @ elim_log 2 limit"
  let ?w' = "w\<lparr>is_prime := None, accesses := accesses w @ ?new,
               stdout := stdout w @ ''End Program\<newline>''\<rparr>"
  have c: "compute_primes avail limit w = Some (Inr ?w')"
    using assms by (rule compute_primes_eq)
  have cov: "limit < int (requested limit)"
    using assms by (intro requested_covers) (simp add: INT_MAX_def)
  have "2 \<le> index_of a \<and> index_of a \<le> limit \<and> 0 \<le> index_of a \<and>
        index_of a < int (requested limit) \<and> index_of a \<noteq> 0 \<and> index_of a \<noteq> 1"
    if "a \<in> set ?new" for a
    using new_accesses_in_range [OF that] cov by linarith
  moreover have "accesses ?w' = accesses w @ ?new" by simp
  ultimately show ?thesis
    using c by blast
qed

text \<open>The bound 10, with every request granted: sixteen accesses, the least at 2.\<close>

theorem accesses_between_two_and_limit_witness:
  "INT_MIN \<le> 10 \<and> (10::int) < 46340 * 46340 \<and>
   (\<exists>w'. compute_primes (\<lambda>n. True) 10 initial_world = Some (Inr w') \<and>
      accesses w' = [Wr 2, Wr 3, Wr 4, Wr 5, Wr 6, Wr 7, Wr 8, Wr 9, Wr 10,
                     Rd 2, Wr 4, Wr 6, Wr 8, Wr 10, Rd 3, Wr 9] \<and>
      list_all (\<lambda>a. 2 \<le> index_of a \<and> index_of a \<le> 10) (accesses w'))"
proof -
  have h: "INT_MIN \<le> 10" "(10::int) < 46340 * 46340" "(\<lambda>n::nat. True) (requested 10)"
    by (simp_all add: INT_MIN_def)
  have e: "compute_primes (\<lambda>n. True) 10 initial_world =
     Some (Inr \<lparr>is_prime = None,
                accesses = [Wr 2, Wr 3, Wr 4, Wr 5, Wr 6, Wr 7, Wr 8, Wr 9, Wr 10,
                            Rd 2, Wr 4, Wr 6, Wr 8, Wr 10, Rd 3, Wr 9],
                stdout = ''End Program\<newline>''\<rparr>)"
    by (simp add: compute_primes_def allocate_def add_int_def mul_int_def INT_MAX_def INT_MIN_def
      malloc_def to_size_t_def mul_size_t_def sizeof_bool_def initial_world_def store_def
      load_def outer_body_def inner_loop.simps free_def printf_def)
  from accesses_between_two_and_limit [of 10 "\<lambda>n. True" initial_world, OF h]
  obtain w' new where w: "compute_primes (\<lambda>n. True) 10 initial_world = Some (Inr w')"
    "accesses w' = accesses initial_world @ new"
    "\<forall>a\<in>set new. 2 \<le> index_of a \<and> index_of a \<le> 10"
    by blast
  then have "list_all (\<lambda>a. 2 \<le> index_of a \<and> index_of a \<le> 10) (accesses w')"
    by (simp add: initial_world_def list_all_iff)
  moreover have "accesses w' = [Wr 2, Wr 3, Wr 4, Wr 5, Wr 6, Wr 7, Wr 8, Wr 9, Wr 10,
                     Rd 2, Wr 4, Wr 6, Wr 8, Wr 10, Rd 3, Wr 9]"
    using w(1) e by auto
  ultimately show ?thesis
    using h w(1) by blast
qed

end
